theory Spec2Isabelle
  imports Complex_Main
begin

section \<open>JavaScript values\<close>

text \<open>
  The converter is dynamically typed: queries, operator sets, pipeline stages and the
  produced Atlas Search stages are all plain JavaScript values. They are modelled by one
  datatype. An object is the list of its own enumerable properties in the order in which
  \<^verbatim>\<open>Object.entries\<close> yields them. Numbers are rationals, with \<open>JNaN\<close> for the one
  non-zero-like number that is falsy; a \<open>Date\<close> is its epoch value and a \<open>RegExp\<close> its
  source and flags.
\<close>

datatype jsval =
    JUndefined
  | JNull
  | JBool bool
  | JNum rat
  | JNaN
  | JStr string
  | JArr "jsval list"
  | JObj "(string \<times> jsval) list"
  | JDate int
  | JRegExp string string

type_synonym props = "(string \<times> jsval) list"

text \<open>Exceptions: the \<^verbatim>\<open>TypeError\<close> of the runtime and \<^verbatim>\<open>new Error(message)\<close>.\<close>

datatype error = TypeError | Error string

text \<open>
  The three \<^verbatim>\<open>console.warn\<close> call sites. A diagnostic records the call site and the
  values interpolated into its message.
\<close>

datatype diagnostic =
    ComplexSortWarning string jsval
  | ArrayMatchWarning
  | UnsupportedOperatorWarning string

text \<open>
  A computation returns the diagnostics it emitted, in order, and either the exception
  that ended it or its value. Diagnostics emitted before an exception stay emitted.
\<close>

type_synonym 'a res = "diagnostic list \<times> (error + 'a)"

definition consoleWarn :: "diagnostic \<Rightarrow> 'a res \<Rightarrow> 'a res" where
  "consoleWarn d r = (d # fst r, snd r)"

definition afterLog :: "diagnostic list \<Rightarrow> 'a res \<Rightarrow> 'a res" where
  "afterLog w r = (w @ fst r, snd r)"

subsection \<open>Primitive operations of the language\<close>

text \<open>Truthiness, as tested by \<^verbatim>\<open>if (v)\<close>, \<^verbatim>\<open>!v\<close>, \<^verbatim>\<open>a && b\<close> and \<^verbatim>\<open>a || b\<close>.\<close>

fun truthy :: "jsval \<Rightarrow> bool" where
  "truthy JUndefined = False"
| "truthy JNull = False"
| "truthy (JBool b) = b"
| "truthy (JNum n) = (n \<noteq> 0)"
| "truthy JNaN = False"
| "truthy (JStr s) = (s \<noteq> [])"
| "truthy _ = True"

text \<open>
  \<^verbatim>\<open>v.name\<close> for a name that is neither an index nor a built-in member (\<^verbatim>\<open>$match\<close>,
  \<^verbatim>\<open>$options\<close>, \<^verbatim>\<open>sort\<close>, ...): the own property of an object, \<^verbatim>\<open>undefined\<close> on every
  other value, and a \<^verbatim>\<open>TypeError\<close> on \<^verbatim>\<open>null\<close> and \<^verbatim>\<open>undefined\<close>.
\<close>

fun lookupProp :: "jsval \<Rightarrow> string \<Rightarrow> jsval" where
  "lookupProp (JObj kvs) name = (case map_of kvs name of None \<Rightarrow> JUndefined | Some v \<Rightarrow> v)"
| "lookupProp _ name = JUndefined"

definition getProp :: "jsval \<Rightarrow> string \<Rightarrow> error + jsval" where
  "getProp v name =
     (if v = JNull \<or> v = JUndefined then Inl TypeError else Inr (lookupProp v name))"

text \<open>Decimal rendering of an array or string index, as used for property keys.\<close>

definition digitChar :: "nat \<Rightarrow> char" where
  "digitChar d = ''0123456789'' ! d"

fun numberToString :: "nat \<Rightarrow> string" where
  "numberToString n =
     (if n < 10 then [digitChar n]
      else numberToString (n div 10) @ [digitChar (n mod 10)])"

declare numberToString.simps [simp del]

fun indexed :: "nat \<Rightarrow> jsval list \<Rightarrow> props" where
  "indexed i [] = []"
| "indexed i (x # xs) = (numberToString i, x) # indexed (Suc i) xs"

text \<open>
  \<^verbatim>\<open>Object.entries(v)\<close>: throws on \<^verbatim>\<open>null\<close> and \<^verbatim>\<open>undefined\<close>; the indexed elements of
  an array and the indexed one-character strings of a string; nothing for numbers,
  booleans, dates and regular expressions.
\<close>

fun entries :: "jsval \<Rightarrow> error + props" where
  "entries JUndefined = Inl TypeError"
| "entries JNull = Inl TypeError"
| "entries (JObj kvs) = Inr kvs"
| "entries (JArr xs) = Inr (indexed 0 xs)"
| "entries (JStr s) = Inr (indexed 0 (map (\<lambda>c. JStr [c]) s))"
| "entries _ = Inr []"

text \<open>
  Property order. An ordinary object enumerates its array-index keys first, in ascending
  numeric order, and then its other string keys in creation order. \<open>setProp\<close> is the
  assignment \<^verbatim>\<open>obj[key] = v\<close>; \<open>spread\<close> is \<^verbatim>\<open>{...obj, ...v}\<close>.
\<close>

definition digitValue :: "char \<Rightarrow> int" where
  "digitValue c = of_char c - 48"

definition stringToNumber :: "string \<Rightarrow> int" where
  "stringToNumber s = foldl (\<lambda>n c. 10 * n + digitValue c) 0 s"

definition isArrayIndex :: "string \<Rightarrow> bool" where
  "isArrayIndex s \<longleftrightarrow>
     s \<noteq> [] \<and> list_all (\<lambda>c. c \<in> set ''0123456789'') s \<and>
     (s = ''0'' \<or> hd s \<noteq> CHR ''0'') \<and> stringToNumber s < 4294967295"

fun insertIndexProp :: "string \<Rightarrow> jsval \<Rightarrow> props \<Rightarrow> props" where
  "insertIndexProp key v [] = [(key, v)]"
| "insertIndexProp key v ((k, x) # rest) =
     (if isArrayIndex k \<and> stringToNumber k < stringToNumber key
      then (k, x) # insertIndexProp key v rest
      else (key, v) # (k, x) # rest)"

definition setProp :: "props \<Rightarrow> string \<Rightarrow> jsval \<Rightarrow> props" where
  "setProp obj key v =
     (if key \<in> set (map fst obj) then map (\<lambda>(k, x). if k = key then (k, v) else (k, x)) obj
      else if isArrayIndex key then insertIndexProp key v obj
      else obj @ [(key, v)])"

definition spread :: "props \<Rightarrow> jsval \<Rightarrow> props" where
  "spread obj v =
     (case entries v of
        Inl e \<Rightarrow> obj
      | Inr kvs \<Rightarrow> foldl (\<lambda>acc (k, x). setProp acc k x) obj kvs)"

definition startsWith :: "string \<Rightarrow> char \<Rightarrow> bool" where
  "startsWith s c = (case s of [] \<Rightarrow> False | d # rest \<Rightarrow> d = c)"

section \<open>Search clauses\<close>

text \<open>The object literals that the converter builds, named after their operator.\<close>

definition equalsClause :: "string \<Rightarrow> jsval \<Rightarrow> jsval" where
  "equalsClause field v = JObj [(''equals'', JObj [(''path'', JStr field), (''value'', v)])]"

definition rangeClause :: "string \<Rightarrow> string \<Rightarrow> jsval \<Rightarrow> jsval" where
  "rangeClause field bound v = JObj [(''range'', JObj [(''path'', JStr field), (bound, v)])]"

definition inClause :: "string \<Rightarrow> jsval \<Rightarrow> jsval" where
  "inClause field v = JObj [(''in'', JObj [(''path'', JStr field), (''value'', v)])]"

definition existsClause :: "string \<Rightarrow> jsval" where
  "existsClause field = JObj [(''exists'', JObj [(''path'', JStr field)])]"

definition regexClause :: "string \<Rightarrow> jsval \<Rightarrow> jsval \<Rightarrow> jsval" where
  "regexClause field query options =
     JObj [(''regex'', JObj ([(''query'', query), (''path'', JStr field)] @
                             (if truthy options then [(''options'', options)] else [])))]"

definition mustClause :: "jsval list \<Rightarrow> jsval" where
  "mustClause cs = JObj [(''compound'', JObj [(''must'', JArr cs)])]"

definition shouldClause :: "jsval list \<Rightarrow> jsval" where
  "shouldClause cs =
     JObj [(''compound'', JObj [(''should'', JArr cs), (''minimumShouldMatch'', JNum 1)])]"

definition mustNotClause :: "jsval list \<Rightarrow> jsval" where
  "mustNotClause cs = JObj [(''compound'', JObj [(''mustNot'', JArr cs)])]"

section \<open>The converter\<close>

record converter =
  indexName :: jsval

text \<open>\<^verbatim>\<open>constructor(indexName = 'default')\<close>: the default applies to \<^verbatim>\<open>undefined\<close> only.\<close>

definition newConverter :: "jsval \<Rightarrow> converter" where
  "newConverter name = \<lparr>indexName = (if name = JUndefined then JStr ''default'' else name)\<rparr>"

subsection \<open>Field operators\<close>

text \<open>
  The measure that makes the recursive descent terminate: a nested value is only ever
  entered below a key that starts with \<^verbatim>\<open>$\<close>, and the keys of array and string entries
  are decimal indices.
\<close>

fun jsize :: "jsval \<Rightarrow> nat" where
  "jsize (JObj kvs) = Suc (sum_list (map (\<lambda>(k, v). 2 + jsize v) kvs))"
| "jsize (JArr xs) = Suc (sum_list (map (\<lambda>v. 2 + jsize v) xs))"
| "jsize (JStr s) = length s"
| "jsize _ = 0"

definition esize :: "props \<Rightarrow> nat" where
  "esize kvs = sum_list (map (\<lambda>(k, v). if startsWith k (CHR ''$'') then 2 + jsize v else 1) kvs)"

definition asize :: "jsval list \<Rightarrow> nat" where
  "asize xs = sum_list (map (\<lambda>v. 2 + jsize v) xs)"

lemma digitChar_not_dollar: "d < 10 \<Longrightarrow> digitChar d \<noteq> CHR ''$''"
  by (auto simp: digitChar_def less_Suc_eq numeral_eq_Suc nth_Cons')

lemma numberToString_not_dollar: "\<not> startsWith (numberToString n) (CHR ''$'')"
proof (induction n rule: numberToString.induct)
  case (1 n)
  show ?case
  proof (cases "n < 10")
    case True
    then show ?thesis
      by (simp add: numberToString.simps [of n] startsWith_def digitChar_not_dollar)
  next
    case False
    with 1 have IH: "\<not> startsWith (numberToString (n div 10)) (CHR ''$'')"
      by simp
    have unfold: "numberToString n = numberToString (n div 10) @ [digitChar (n mod 10)]"
      using False by (simp add: numberToString.simps [of n])
    have "n mod 10 < 10"
      by simp
    then have "digitChar (n mod 10) \<noteq> CHR ''$''"
      by (rule digitChar_not_dollar)
    with IH show ?thesis
      unfolding unfold by (cases "numberToString (n div 10)") (simp_all add: startsWith_def)
  qed
qed

lemma esize_indexed: "esize (indexed i xs) = length xs"
  by (induction xs arbitrary: i) (simp_all add: esize_def numberToString_not_dollar)

lemma esize_le_props: "esize kvs \<le> sum_list (map (\<lambda>(k, v). 2 + jsize v) kvs)"
  by (induction kvs) (auto simp: esize_def)

lemma length_le_asize: "length xs \<le> asize xs"
  by (induction xs) (simp_all add: asize_def)

lemma esize_entries: "entries v = Inr kvs \<Longrightarrow> esize kvs \<le> jsize v"
proof (cases v)
  case (JObj x)
  assume "entries v = Inr kvs"
  with JObj show ?thesis
    using esize_le_props [of kvs] by auto
next
  case (JArr xs)
  assume "entries v = Inr kvs"
  with JArr show ?thesis
    using length_le_asize [of xs] by (auto simp: esize_indexed asize_def)
next
  case (JStr s)
  assume "entries v = Inr kvs"
  with JStr show ?thesis
    by (auto simp: esize_indexed)
qed (auto simp: esize_def)

lemma esize_Cons:
  "esize ((k, v) # rest) = (if startsWith k (CHR ''$'') then 2 + jsize v else 1) + esize rest"
  by (simp add: esize_def)

text \<open>
  \<^verbatim>\<open>convertFieldOperators(field, operators)\<close>. The loop function is the body of the
  \<^verbatim>\<open>for (const [operator, value] of Object.entries(operators))\<close> loop over the entries
  still to be visited; \<open>clauses\<close> and \<open>regexHandled\<close> are the two local variables.
\<close>

function convertFieldOperators :: "string \<Rightarrow> jsval \<Rightarrow> jsval list res"
  and convertFieldOperatorsLoop ::
    "string \<Rightarrow> jsval \<Rightarrow> props \<Rightarrow> jsval list \<Rightarrow> bool \<Rightarrow> jsval list res"
where
  "convertFieldOperators field operators =
     (case entries operators of
        Inl e \<Rightarrow> ([], Inl e)
      | Inr kvs \<Rightarrow> convertFieldOperatorsLoop field operators kvs [] False)"
| "convertFieldOperatorsLoop field operators [] clauses regexHandled = ([], Inr clauses)"
| "convertFieldOperatorsLoop field operators ((operator, v) # rest) clauses regexHandled =
     (if operator = ''$eq'' then
        convertFieldOperatorsLoop field operators rest
          (clauses @ [equalsClause field v]) regexHandled
      else if operator = ''$ne'' then
        convertFieldOperatorsLoop field operators rest
          (clauses @ [mustNotClause [equalsClause field v]]) regexHandled
      else if operator = ''$gt'' then
        convertFieldOperatorsLoop field operators rest
          (clauses @ [rangeClause field ''gt'' v]) regexHandled
      else if operator = ''$gte'' then
        convertFieldOperatorsLoop field operators rest
          (clauses @ [rangeClause field ''gte'' v]) regexHandled
      else if operator = ''$lt'' then
        convertFieldOperatorsLoop field operators rest
          (clauses @ [rangeClause field ''lt'' v]) regexHandled
      else if operator = ''$lte'' then
        convertFieldOperatorsLoop field operators rest
          (clauses @ [rangeClause field ''lte'' v]) regexHandled
      else if operator = ''$in'' then
        convertFieldOperatorsLoop field operators rest
          (clauses @ [inClause field v]) regexHandled
      else if operator = ''$nin'' then
        convertFieldOperatorsLoop field operators rest
          (clauses @ [mustNotClause [inClause field v]]) regexHandled
      else if operator = ''$exists'' then
        (if truthy v then
           convertFieldOperatorsLoop field operators rest
             (clauses @ [existsClause field]) regexHandled
         else
           convertFieldOperatorsLoop field operators rest
             (clauses @ [mustNotClause [existsClause field]]) regexHandled)
      else if operator = ''$regex'' then
        (if \<not> regexHandled then
           (let regexValue = v;
                options = (let given = lookupProp operators ''$options''
                           in if truthy given then given else JStr [])
            in case regexValue of
                 JStr s \<Rightarrow>
                   convertFieldOperatorsLoop field operators rest
                     (clauses @ [regexClause field regexValue options]) True
               | _ \<Rightarrow> convertFieldOperatorsLoop field operators rest clauses True)
         else convertFieldOperatorsLoop field operators rest clauses regexHandled)
      else if operator = ''$options'' then
        convertFieldOperatorsLoop field operators rest clauses regexHandled
      else if operator = ''$not'' then
        (case convertFieldOperators field v of
           (w, Inl e) \<Rightarrow> (w, Inl e)
         | (w, Inr notClauses) \<Rightarrow>
             afterLog w
               (convertFieldOperatorsLoop field operators rest
                  (clauses @ [mustNotClause notClauses]) regexHandled))
      else
        consoleWarn (UnsupportedOperatorWarning operator)
          (convertFieldOperatorsLoop field operators rest clauses regexHandled))"
  by pat_completeness auto
termination
proof (relation "measure (\<lambda>x. case x of
          Inl (field, operators) \<Rightarrow> Suc (jsize operators)
        | Inr (field, operators, kvs, clauses, regexHandled) \<Rightarrow> esize kvs)", goal_cases)
  case 1
  show ?case by simp
next
  case (2 field operators kvs)
  then show ?case
    using esize_entries [of operators kvs] by simp
qed (simp_all add: esize_Cons startsWith_def)


subsection \<open>Field queries\<close>

text \<open>\<^verbatim>\<open>typeof v\<close>, \<^verbatim>\<open>Array.isArray(v)\<close>, \<^verbatim>\<open>v instanceof Date\<close>, \<^verbatim>\<open>v instanceof RegExp\<close>.\<close>

fun typeof :: "jsval \<Rightarrow> string" where
  "typeof JUndefined = ''undefined''"
| "typeof (JBool b) = ''boolean''"
| "typeof (JNum n) = ''number''"
| "typeof JNaN = ''number''"
| "typeof (JStr s) = ''string''"
| "typeof _ = ''object''"

fun isArray :: "jsval \<Rightarrow> bool" where
  "isArray (JArr xs) = True"
| "isArray _ = False"

fun instanceofDate :: "jsval \<Rightarrow> bool" where
  "instanceofDate (JDate t) = True"
| "instanceofDate _ = False"

fun instanceofRegExp :: "jsval \<Rightarrow> bool" where
  "instanceofRegExp (JRegExp source flags) = True"
| "instanceofRegExp _ = False"

definition convertFieldQuery :: "string \<Rightarrow> jsval \<Rightarrow> jsval list res" where
  "convertFieldQuery field v =
     (if v = JNull then
        ([], Inr [shouldClause [equalsClause field JNull, mustNotClause [existsClause field]]])
      else if typeof v = ''object'' \<and> v \<noteq> JNull \<and> \<not> isArray v \<and>
              \<not> instanceofDate v \<and> \<not> instanceofRegExp v then
        convertFieldOperators field v
      else case v of
        JArr elems \<Rightarrow>
          (if length elems = 0 then ([], Inr [mustNotClause [existsClause field]])
           else if length elems = 1 then ([], Inr [equalsClause field (elems ! 0)])
           else consoleWarn ArrayMatchWarning
                  ([], Inr [mustClause (map (\<lambda>element. equalsClause field element) elems)]))
      | _ \<Rightarrow> ([], Inr [equalsClause field v]))"

subsection \<open>Queries and logical operators\<close>

text \<open>
  \<^verbatim>\<open>convertQuery\<close> with its \<^verbatim>\<open>for ... of Object.entries(query)\<close> loop,
  \<^verbatim>\<open>convertLogicalOperator\<close>, and \<^verbatim>\<open>value.flatMap(subQuery => this.convertQuery(subQuery))\<close>.
  \<^verbatim>\<open>flatMap\<close> exists on arrays only: on any other value the call is a \<^verbatim>\<open>TypeError\<close>.
\<close>

function convertQuery :: "jsval \<Rightarrow> jsval list res"
  and convertQueryLoop :: "props \<Rightarrow> jsval list \<Rightarrow> jsval list res"
  and convertLogicalOperator :: "string \<Rightarrow> jsval \<Rightarrow> jsval list res"
  and flatMapConvertQuery :: "jsval list \<Rightarrow> jsval list res"
where
  "convertQuery query =
     (case entries query of
        Inl e \<Rightarrow> ([], Inl e)
      | Inr kvs \<Rightarrow> convertQueryLoop kvs [])"
| "convertQueryLoop [] clauses = ([], Inr clauses)"
| "convertQueryLoop ((field, v) # rest) clauses =
     (case (if startsWith field (CHR ''$'') then convertLogicalOperator field v
            else convertFieldQuery field v) of
        (w, Inl e) \<Rightarrow> (w, Inl e)
      | (w, Inr converted) \<Rightarrow> afterLog w (convertQueryLoop rest (clauses @ converted)))"
| "convertLogicalOperator operator v =
     (if operator = ''$and'' then
        (case v of
           JArr subQueries \<Rightarrow>
             (case flatMapConvertQuery subQueries of
                (w, Inl e) \<Rightarrow> (w, Inl e)
              | (w, Inr cs) \<Rightarrow> (w, Inr [mustClause cs]))
         | _ \<Rightarrow> ([], Inl TypeError))
      else if operator = ''$or'' then
        (case v of
           JArr subQueries \<Rightarrow>
             (case flatMapConvertQuery subQueries of
                (w, Inl e) \<Rightarrow> (w, Inl e)
              | (w, Inr cs) \<Rightarrow> (w, Inr [shouldClause cs]))
         | _ \<Rightarrow> ([], Inl TypeError))
      else if operator = ''$nor'' then
        (case v of
           JArr subQueries \<Rightarrow>
             (case flatMapConvertQuery subQueries of
                (w, Inl e) \<Rightarrow> (w, Inl e)
              | (w, Inr cs) \<Rightarrow> (w, Inr [mustNotClause cs]))
         | _ \<Rightarrow> ([], Inl TypeError))
      else if operator = ''$not'' then
        ([], Inl (Error ''$not operator should be handled at field level''))
      else ([], Inl (Error (''Unsupported logical operator: '' @ operator))))"
| "flatMapConvertQuery [] = ([], Inr [])"
| "flatMapConvertQuery (subQuery # later) =
     (case convertQuery subQuery of
        (w, Inl e) \<Rightarrow> (w, Inl e)
      | (w, Inr cs) \<Rightarrow>
          (case flatMapConvertQuery later of
             (w', Inl e) \<Rightarrow> (w @ w', Inl e)
           | (w', Inr ds) \<Rightarrow> (w @ w', Inr (cs @ ds))))"
  by pat_completeness auto
termination
  apply (relation "measure (\<lambda>x. case x of
          Inl (Inl query) \<Rightarrow> Suc (jsize query)
        | Inl (Inr (kvs, clauses)) \<Rightarrow> esize kvs
        | Inr (Inl (operator, v)) \<Rightarrow> Suc (jsize v)
        | Inr (Inr subQueries) \<Rightarrow> asize subQueries)")
  apply (simp_all add: esize_Cons asize_def less_Suc_eq_le esize_entries)
  done


subsection \<open>The \<^verbatim>\<open>$search\<close> stage\<close>

definition matchAll :: "converter \<Rightarrow> jsval" where
  "matchAll this =
     JObj [(''$search'', JObj [(''index'', indexName this),
                               (''exists'', JObj [(''path'', JStr ''_id'')])])]"

definition convertQueryToSearch :: "converter \<Rightarrow> jsval \<Rightarrow> jsval res" where
  "convertQueryToSearch this query =
     (case entries query of
        Inl e \<Rightarrow> ([], Inl e)
      | Inr kvs \<Rightarrow>
          if length (map fst kvs) = 0 then ([], Inr (matchAll this))
          else
            (case convertQuery query of
               (w, Inl e) \<Rightarrow> (w, Inl e)
             | (w, Inr searchClauses) \<Rightarrow>
                 if length searchClauses = 0 then (w, Inr (matchAll this))
                 else if length searchClauses = 1 then
                   (w, Inr (JObj [(''$search'',
                      JObj (spread [(''index'', indexName this)] (searchClauses ! 0)))]))
                 else if length searchClauses > 1 then
                   (w, Inr (JObj [(''$search'',
                      JObj [(''index'', indexName this),
                            (''compound'', JObj [(''must'', JArr searchClauses)])])]))
                 else (w, Inl (Error ''Unable to convert query to Atlas Search''))))"

text \<open>
  \<^verbatim>\<open>convertSortToAtlasSearch\<close>: the loop carries \<open>searchSort\<close>; a direction that is not a
  number warns and returns \<^verbatim>\<open>null\<close> at once.
  The sort keys are taken to be ordinary property names (an own key \<^verbatim>\<open>__proto__\<close> would
  set the prototype of \<open>searchSort\<close> instead of a property), and the conversion of the
  direction to a string for the message is taken not to throw.
\<close>

fun convertSortLoop :: "props \<Rightarrow> props \<Rightarrow> jsval res" where
  "convertSortLoop [] searchSort =
     ([], Inr (if length (map fst searchSort) > 0 then JObj searchSort else JNull))"
| "convertSortLoop ((field, direction) # rest) searchSort =
     (if typeof direction = ''number'' then
        convertSortLoop rest (setProp searchSort field (JObj [(''order'', direction)]))
      else consoleWarn (ComplexSortWarning field direction) ([], Inr JNull))"

definition convertSortToAtlasSearch :: "jsval \<Rightarrow> jsval res" where
  "convertSortToAtlasSearch sortSpec =
     (if \<not> truthy sortSpec \<or> typeof sortSpec \<noteq> ''object'' then ([], Inr JNull)
      else case entries sortSpec of
             Inl e \<Rightarrow> ([], Inl e)
           | Inr kvs \<Rightarrow> convertSortLoop kvs [])"

text \<open>
  The assignment \<^verbatim>\<open>baseSearch.$search.sort = searchSort\<close>. The base stage is always an
  object whose \<^verbatim>\<open>$search\<close> is an object; on any other shape the assignment would throw.
\<close>

definition setSearchSort :: "jsval \<Rightarrow> jsval \<Rightarrow> error + jsval" where
  "setSearchSort baseSearch searchSort =
     (case baseSearch of
        JObj kvs \<Rightarrow>
          (case lookupProp baseSearch ''$search'' of
             JObj body \<Rightarrow>
               Inr (JObj (setProp kvs ''$search'' (JObj (setProp body ''sort'' searchSort))))
           | _ \<Rightarrow> Inl TypeError)
      | _ \<Rightarrow> Inl TypeError)"

text \<open>A parameter default \<^verbatim>\<open>options = {}\<close> replaces \<^verbatim>\<open>undefined\<close> only.\<close>

definition defaultTo :: "jsval \<Rightarrow> jsval \<Rightarrow> jsval" where
  "defaultTo v d = (if v = JUndefined then d else v)"

definition convertQueryToSearchWithOptions :: "converter \<Rightarrow> jsval \<Rightarrow> jsval \<Rightarrow> jsval res" where
  "convertQueryToSearchWithOptions this query options =
     (case convertQueryToSearch this query of
        (w, Inl e) \<Rightarrow> (w, Inl e)
      | (w, Inr baseSearch) \<Rightarrow>
          (case getProp (defaultTo options (JObj [])) ''sort'' of
             Inl e \<Rightarrow> (w, Inl e)
           | Inr sortOption \<Rightarrow>
               if truthy sortOption then
                 (case convertSortToAtlasSearch sortOption of
                    (w', Inl e) \<Rightarrow> (w @ w', Inl e)
                  | (w', Inr searchSort) \<Rightarrow>
                      if truthy searchSort then (w @ w', setSearchSort baseSearch searchSort)
                      else (w @ w', Inr baseSearch))
               else (w, Inr baseSearch)))"

subsection \<open>Pipelines\<close>

text \<open>The four look-ahead variables of \<^verbatim>\<open>optimizePipelineSequence\<close>, \<^verbatim>\<open>null\<close> at first.\<close>

record scan =
  sortStage :: jsval
  limitStage :: jsval
  skipStage :: jsval
  projectStage :: jsval

definition noStages :: scan where
  "noStages = \<lparr>sortStage = JNull, limitStage = JNull, skipStage = JNull, projectStage = JNull\<rparr>"

text \<open>
  The scan loop \<^verbatim>\<open>while (currentIndex < pipeline.length)\<close>. Its list argument is the part
  of the pipeline from \<open>currentIndex\<close> on, which is \<^verbatim>\<open>pipeline.slice(currentIndex)\<close> when
  the loop breaks. It returns the variables, \<open>currentIndex\<close> and \<open>remainingStages\<close>.
\<close>

fun scanStages :: "jsval \<Rightarrow> jsval list \<Rightarrow> nat \<Rightarrow> scan \<Rightarrow> error + (scan \<times> nat \<times> jsval list)" where
  "scanStages options [] currentIndex st = Inr (st, currentIndex, [])"
| "scanStages options (stage # later) currentIndex st =
     (case getProp stage ''$sort'' of
        Inl e \<Rightarrow> Inl e
      | Inr sortSpec \<Rightarrow>
          if truthy sortSpec \<and> \<not> truthy (sortStage st) then
            scanStages options later (Suc currentIndex) (st\<lparr>sortStage := stage\<rparr>)
          else if truthy (lookupProp stage ''$limit'') \<and> \<not> truthy (limitStage st) then
            scanStages options later (Suc currentIndex) (st\<lparr>limitStage := stage\<rparr>)
          else if truthy (lookupProp stage ''$skip'') \<and> \<not> truthy (skipStage st) then
            scanStages options later (Suc currentIndex) (st\<lparr>skipStage := stage\<rparr>)
          else if truthy (lookupProp stage ''$project'') \<and> \<not> truthy (projectStage st) then
            (case getProp options ''includeProjection'' of
               Inl e \<Rightarrow> Inl e
             | Inr includeProjection \<Rightarrow>
                 if truthy includeProjection then
                   scanStages options later (Suc currentIndex) (st\<lparr>projectStage := stage\<rparr>)
                 else Inr (st, currentIndex, stage # later))
          else Inr (st, currentIndex, stage # later))"

text \<open>The result object: \<^verbatim>\<open>{ optimized: false }\<close> or the four-field record.\<close>

datatype optimization =
    NotOptimized
  | Optimized (searchStage: jsval) (remainingStages: "jsval list") (nextIndex: nat)

text \<open>\<^verbatim>\<open>pipeline[i]\<close> is \<^verbatim>\<open>undefined\<close> out of range; \<^verbatim>\<open>sortStage?.$sort\<close>.\<close>

definition element :: "jsval list \<Rightarrow> nat \<Rightarrow> jsval" where
  "element xs i = (if i < length xs then xs ! i else JUndefined)"

definition optionalProp :: "jsval \<Rightarrow> string \<Rightarrow> jsval" where
  "optionalProp v name = (if v = JNull \<or> v = JUndefined then JUndefined else lookupProp v name)"

definition optimizePipelineSequence ::
  "converter \<Rightarrow> jsval list \<Rightarrow> nat \<Rightarrow> jsval \<Rightarrow> optimization res" where
  "optimizePipelineSequence this pipeline startIndex options0 =
     (let options = defaultTo options0 (JObj []);
          matchStage = element pipeline startIndex
      in case getProp matchStage ''$match'' of
           Inl e \<Rightarrow> ([], Inl e)
         | Inr query \<Rightarrow>
             if \<not> truthy query then ([], Inr NotOptimized)
             else
               (case scanStages options (drop (startIndex + 1) pipeline) (startIndex + 1) noStages of
                  Inl e \<Rightarrow> ([], Inl e)
                | Inr (st, currentIndex, remaining0) \<Rightarrow>
                    (case convertQueryToSearchWithOptions this query
                            (JObj [(''sort'', optionalProp (sortStage st) ''$sort'')]) of
                       (w, Inl e) \<Rightarrow> (w, Inl e)
                     | (w, Inr search) \<Rightarrow>
                         (let remaining1 =
                                (if truthy (skipStage st)
                                 then JObj [(''$skip'', lookupProp (skipStage st) ''$skip'')] # remaining0
                                 else remaining0);
                              remaining2 =
                                (if truthy (limitStage st)
                                 then JObj [(''$limit'', lookupProp (limitStage st) ''$limit'')] # remaining1
                                 else remaining1)
                          in if truthy (projectStage st) then
                               (case getProp options ''includeProjection'' of
                                  Inl e \<Rightarrow> (w, Inl e)
                                | Inr includeProjection \<Rightarrow>
                                    if \<not> truthy includeProjection then
                                      (w, Inr (Optimized search (projectStage st # remaining2) currentIndex))
                                    else (w, Inr (Optimized search remaining2 currentIndex)))
                             else (w, Inr (Optimized search remaining2 currentIndex))))))"

lemma scanStages_index:
  "scanStages options stages i st = Inr (st', j, remaining) \<Longrightarrow> i \<le> j"
proof (induction stages arbitrary: i st)
  case Nil
  then show ?case by simp
next
  case (Cons stage later)
  from Cons.prems show ?case
    by (auto split: sum.splits if_splits dest!: Cons.IH)
qed

lemma optimizePipelineSequence_nextIndex:
  assumes "optimizePipelineSequence this pipeline i options = (w, Inr (Optimized s r n))"
  shows "i < n"
proof -
  from assms obtain st r0 where
    "scanStages (defaultTo options (JObj [])) (drop (i + 1) pipeline) (i + 1) noStages = Inr (st, n, r0)"
    by (auto simp: optimizePipelineSequence_def Let_def split: sum.splits if_splits prod.splits)
  from scanStages_index [OF this] show ?thesis
    by simp
qed

text \<open>
  \<^verbatim>\<open>convertAggregationPipeline\<close>: the guard, then the loop \<^verbatim>\<open>while (i < pipeline.length)\<close>
  with its variables \<open>i\<close> and \<open>newPipeline\<close>.
\<close>

function convertPipelineLoop ::
  "converter \<Rightarrow> jsval list \<Rightarrow> jsval \<Rightarrow> nat \<Rightarrow> jsval list \<Rightarrow> jsval list res" where
  "convertPipelineLoop this pipeline options i newPipeline =
     (if i < length pipeline then
        (let stage = element pipeline i
         in case getProp stage ''$match'' of
              Inl e \<Rightarrow> ([], Inl e)
            | Inr query \<Rightarrow>
                if truthy query then
                  (case optimizePipelineSequence this pipeline i options of
                     (w, Inl e) \<Rightarrow> (w, Inl e)
                   | (w, Inr (Optimized search remaining nextI)) \<Rightarrow>
                       afterLog w
                         (convertPipelineLoop this pipeline options nextI
                            (newPipeline @ [search] @ remaining))
                   | (w, Inr NotOptimized) \<Rightarrow>
                       (case convertQueryToSearch this query of
                          (w', Inl e) \<Rightarrow> (w @ w', Inl e)
                        | (w', Inr search) \<Rightarrow>
                            afterLog (w @ w')
                              (convertPipelineLoop this pipeline options (i + 1)
                                 (newPipeline @ [search]))))
                else convertPipelineLoop this pipeline options (i + 1) (newPipeline @ [stage]))
      else ([], Inr newPipeline))"
  by pat_completeness auto
termination
  apply (relation "measure (\<lambda>(this, pipeline, options, i, newPipeline). length pipeline - i)")
  apply (auto dest!: optimizePipelineSequence_nextIndex [OF sym])
  done

declare convertPipelineLoop.simps [simp del]

definition convertAggregationPipeline :: "converter \<Rightarrow> jsval \<Rightarrow> jsval \<Rightarrow> jsval list res" where
  "convertAggregationPipeline this pipeline options0 =
     (let options = defaultTo options0 (JObj [])
      in case pipeline of
           JArr stages \<Rightarrow> convertPipelineLoop this stages options 0 []
         | _ \<Rightarrow> ([], Inl (Error ''Pipeline must be an array'')))"


subsection \<open>Find queries and the two utility builders\<close>

text \<open>
  \<^verbatim>\<open>convertFindQuery\<close>: both branches push the projection, the skip and the limit in this
  order after the search stage.
\<close>

definition convertFindQuery :: "converter \<Rightarrow> jsval \<Rightarrow> jsval \<Rightarrow> jsval list res" where
  "convertFindQuery this query options0 =
     (let options = defaultTo options0 (JObj [])
      in case getProp options ''sort'' of
           Inl e \<Rightarrow> ([], Inl e)
         | Inr sortOption \<Rightarrow>
             (case (if truthy sortOption
                    then convertQueryToSearchWithOptions this query (JObj [(''sort'', sortOption)])
                    else convertQueryToSearch this query) of
                (w, Inl e) \<Rightarrow> (w, Inl e)
              | (w, Inr search) \<Rightarrow>
                  (w, Inr ([search] @
                     (if truthy (lookupProp options ''projection'')
                      then [JObj [(''$project'', lookupProp options ''projection'')]] else []) @
                     (if truthy (lookupProp options ''skip'')
                      then [JObj [(''$skip'', lookupProp options ''skip'')]] else []) @
                     (if truthy (lookupProp options ''limit'')
                      then [JObj [(''$limit'', lookupProp options ''limit'')]] else [])))))"

definition createTextSearch :: "converter \<Rightarrow> jsval \<Rightarrow> jsval \<Rightarrow> jsval \<Rightarrow> jsval" where
  "createTextSearch this searchText path0 options0 =
     (let path = defaultTo path0 (JStr ''*'');
          options = defaultTo options0 (JObj [])
      in JObj [(''$search'',
           JObj [(''index'', indexName this),
                 (''text'', JObj (spread [(''query'', searchText), (''path'', path)] options))])])"

definition createAutocomplete :: "converter \<Rightarrow> jsval \<Rightarrow> jsval \<Rightarrow> jsval \<Rightarrow> jsval" where
  "createAutocomplete this query path options0 =
     (let options = defaultTo options0 (JObj [])
      in JObj [(''$search'',
           JObj [(''index'', indexName this),
                 (''autocomplete'', JObj (spread [(''query'', query), (''path'', path)] options))])])"


section \<open>Properties\<close>

subsection \<open>Auxiliary facts\<close>

lemma afterLog_Nil [simp]: "afterLog [] r = r"
  by (simp add: afterLog_def)

lemma afterLog_pair [simp]: "afterLog w (w', r) = (w @ w', r)"
  by (simp add: afterLog_def)

lemma consoleWarn_pair [simp]: "consoleWarn d (w, r) = (d # w, r)"
  by (simp add: consoleWarn_def)

lemma spread_clause:
  "k \<noteq> ''index'' \<Longrightarrow> \<not> isArrayIndex k \<Longrightarrow>
   spread [(''index'', i)] (JObj [(k, v)]) = [(''index'', i), (k, v)]"
  by (simp add: spread_def setProp_def)

lemma not_index_compound [simp]: "\<not> isArrayIndex ''compound''" "\<not> isArrayIndex ''equals''"
  "\<not> isArrayIndex ''range''" "\<not> isArrayIndex ''in''" "\<not> isArrayIndex ''exists''"
  "\<not> isArrayIndex ''regex''" "\<not> isArrayIndex ''sort''"
  by (simp_all add: isArrayIndex_def)

lemma convertQuery_field:
  "\<not> startsWith field (CHR ''$'') \<Longrightarrow>
   convertQuery (JObj [(field, v)]) = convertFieldQuery field v"
  by (cases "convertFieldQuery field v") (auto split: sum.splits)

subsection \<open>Clauses by operator\<close>

text \<open>
  The operator of a clause is the one key of its object. The four range operators of the
  source stand in \<open>rangeKeys\<close>; the bound that a range clause carries is the operator
  without its \<^verbatim>\<open>$\<close>.
\<close>

fun clauseKind :: "jsval \<Rightarrow> string" where
  "clauseKind (JObj [(k, v)]) = k"
| "clauseKind _ = []"

definition rangeKeys :: "string list" where
  "rangeKeys = [''$gt'', ''$gte'', ''$lt'', ''$lte'']"

lemma clauseKind_simps [simp]:
  "clauseKind (equalsClause f v) = ''equals''"
  "clauseKind (rangeClause f b v) = ''range''"
  "clauseKind (inClause f v) = ''in''"
  "clauseKind (existsClause f) = ''exists''"
  "clauseKind (regexClause f q opts) = ''regex''"
  "clauseKind (mustClause cs) = ''compound''"
  "clauseKind (shouldClause cs) = ''compound''"
  "clauseKind (mustNotClause cs) = ''compound''"
  by (simp_all add: equalsClause_def rangeClause_def inClause_def existsClause_def
      regexClause_def mustClause_def shouldClause_def mustNotClause_def)

lemma afterLog_eq_Inr:
  "afterLog w r = (w', Inr x) \<longleftrightarrow> (\<exists>w''. r = (w'', Inr x) \<and> w' = w @ w'')"
  by (cases r) (auto simp: afterLog_def)





lemma convertFieldQuery_operators [simp]:
  "convertFieldQuery f (JObj ops) = convertFieldOperators f (JObj ops)"
  by (simp add: convertFieldQuery_def)

lemma convertFindQuery_plain:
  "convertFindQuery this query JUndefined =
     (case convertQueryToSearch this query of
        (w, Inl e) \<Rightarrow> (w, Inl e)
      | (w, Inr search) \<Rightarrow> (w, Inr [search]))"
  by (simp add: convertFindQuery_def defaultTo_def getProp_def)


subsection \<open>Exceptions of the operator converter\<close>

text \<open>
  When the operator converter throws: \<^verbatim>\<open>Object.entries\<close> fails on the operator set, or on
  the operand of a \<^verbatim>\<open>$not\<close> somewhere below it. Nothing else in it throws.
\<close>

inductive throwsOnOperators :: "jsval \<Rightarrow> bool" where
  entries: "entries v = Inl e \<Longrightarrow> throwsOnOperators v"
| nested: "entries v = Inr kvs \<Longrightarrow> (''$not'', x) \<in> set kvs \<Longrightarrow> throwsOnOperators x \<Longrightarrow>
     throwsOnOperators v"

code_pred throwsOnOperators .

lemma throwsOnOperators_JObj:
  "throwsOnOperators (JObj kvs) \<longleftrightarrow> (\<exists>x. (''$not'', x) \<in> set kvs \<and> throwsOnOperators x)"
  by (subst throwsOnOperators.simps) auto

lemma throwsOnOperators_primitive [simp]:
  "throwsOnOperators JNull" "throwsOnOperators JUndefined"
  "\<not> throwsOnOperators (JBool b)" "\<not> throwsOnOperators (JNum n)" "\<not> throwsOnOperators JNaN"
  "\<not> throwsOnOperators (JDate t)" "\<not> throwsOnOperators (JRegExp src fl)"
  by (subst throwsOnOperators.simps, simp)+

lemma jsize_less_esize:
  "(k, x) \<in> set kvs \<Longrightarrow> startsWith k (CHR ''$'') \<Longrightarrow> jsize x < esize kvs"
  by (induction kvs) (auto simp: esize_Cons)

subsection \<open>One step of the operator loop\<close>

text \<open>
  The case labels of the \<^verbatim>\<open>switch\<close>, and what one pass of the loop does for a key other
  than \<^verbatim>\<open>$not\<close>: the clauses it pushes and the diagnostic it emits. \<open>loop_simple\<close> and
  \<open>loop_not\<close> below restate the loop body in these terms.
\<close>

definition recognizedOperators :: "string list" where
  "recognizedOperators =
     [''$eq'', ''$ne'', ''$gt'', ''$gte'', ''$lt'', ''$lte'', ''$in'', ''$nin'', ''$exists'',
      ''$regex'', ''$options'', ''$not'']"

definition regexOptions :: "jsval \<Rightarrow> jsval" where
  "regexOptions operators =
     (if truthy (lookupProp operators ''$options'') then lookupProp operators ''$options''
      else JStr [])"

definition stepClauses :: "string \<Rightarrow> jsval \<Rightarrow> string \<Rightarrow> jsval \<Rightarrow> bool \<Rightarrow> jsval list" where
  "stepClauses f operators k v rh =
     (if k = ''$eq'' then [equalsClause f v]
      else if k = ''$ne'' then [mustNotClause [equalsClause f v]]
      else if k \<in> set rangeKeys then [rangeClause f (tl k) v]
      else if k = ''$in'' then [inClause f v]
      else if k = ''$nin'' then [mustNotClause [inClause f v]]
      else if k = ''$exists'' then
        (if truthy v then [existsClause f] else [mustNotClause [existsClause f]])
      else if k = ''$regex'' \<and> \<not> rh \<and> typeof v = ''string'' then
        [regexClause f v (regexOptions operators)]
      else [])"

definition stepWarnings :: "string \<Rightarrow> diagnostic list" where
  "stepWarnings k =
     (if k \<in> set recognizedOperators then [] else [UnsupportedOperatorWarning k])"

lemma typeof_string: "typeof v = ''string'' \<longleftrightarrow> (\<exists>s. v = JStr s)"
  by (cases v) simp_all

lemma loop_simple:
  "k \<noteq> ''$not'' \<Longrightarrow>
   convertFieldOperatorsLoop f operators ((k, v) # rest) clauses rh =
     afterLog (stepWarnings k)
       (convertFieldOperatorsLoop f operators rest (clauses @ stepClauses f operators k v rh)
          (rh \<or> k = ''$regex''))"
  by (cases v)
    (auto simp: stepClauses_def stepWarnings_def recognizedOperators_def rangeKeys_def
      regexOptions_def Let_def afterLog_def consoleWarn_def)

lemma loop_not:
  "convertFieldOperatorsLoop f operators ((''$not'', v) # rest) clauses rh =
     (case convertFieldOperators f v of
        (w, Inl e) \<Rightarrow> (w, Inl e)
      | (w, Inr notClauses) \<Rightarrow>
          afterLog w (convertFieldOperatorsLoop f operators rest
            (clauses @ [mustNotClause notClauses]) rh))"
  by (simp del: convertFieldOperators.simps)

lemmas loop_Cons = convertFieldOperatorsLoop.simps(2)

lemma loop_returns:
  "\<forall>x. (''$not'', x) \<in> set kvs \<longrightarrow> (\<exists>w cs. convertFieldOperators f x = (w, Inr cs)) \<Longrightarrow>
   \<exists>w cs. convertFieldOperatorsLoop f operators kvs clauses rh = (w, Inr cs)"
proof (induction kvs arbitrary: clauses rh)
  case Nil
  then show ?case by simp
next
  case (Cons kv rest)
  obtain k v where kv: "kv = (k, v)"
    by (cases kv)
  from Cons.prems have rest: "\<forall>x. (''$not'', x) \<in> set rest \<longrightarrow>
      (\<exists>w cs. convertFieldOperators f x = (w, Inr cs))"
    by simp
  note IH = Cons.IH [OF rest]
  show ?case
  proof (cases "k = ''$not''")
    case True
    with Cons.prems kv obtain w ncs where "convertFieldOperators f v = (w, Inr ncs)"
      by auto
    with True IH [of "clauses @ [mustNotClause ncs]" rh] show ?thesis
      unfolding kv by (auto simp: loop_not afterLog_eq_Inr simp del: loop_Cons)
  next
    case False
    with IH [of "clauses @ stepClauses f operators k v rh" "rh \<or> k = ''$regex''"]
    show ?thesis
      unfolding kv by (auto simp: loop_simple afterLog_eq_Inr simp del: loop_Cons)
  qed
qed

lemma convertFieldOperators_returns:
  "\<not> throwsOnOperators v \<Longrightarrow> \<exists>w cs. convertFieldOperators f v = (w, Inr cs)"
proof (induction "jsize v" arbitrary: v rule: less_induct)
  case less
  from less.prems obtain kvs where kvs: "entries v = Inr kvs"
    by (cases "entries v") (auto intro: throwsOnOperators.entries)
  have "\<exists>w cs. convertFieldOperators f x = (w, Inr cs)" if "(''$not'', x) \<in> set kvs" for x
  proof (rule less.hyps)
    from that have "jsize x < esize kvs"
      by (rule jsize_less_esize) (simp add: startsWith_def)
    with esize_entries [OF kvs] show "jsize x < jsize v"
      by simp
    from less.prems that kvs show "\<not> throwsOnOperators x"
      by (auto intro: throwsOnOperators.nested)
  qed
  then have "\<exists>w cs. convertFieldOperatorsLoop f v kvs [] False = (w, Inr cs)"
    by (intro loop_returns) blast
  with kvs show ?case
    by simp
qed


text \<open>The operators whose case pushes exactly one clause whatever the value.\<close>

definition clauseOperators :: "string list" where
  "clauseOperators =
     [''$eq'', ''$ne'', ''$gt'', ''$gte'', ''$lt'', ''$lte'', ''$in'', ''$nin'', ''$exists'']"

lemma filter_regex_step:
  "filter (\<lambda>c. clauseKind c = ''regex'') (stepClauses f operators k v rh) =
     (if k = ''$regex'' \<and> \<not> rh \<and> typeof v = ''string''
      then [regexClause f v (regexOptions operators)] else [])"
  by (simp add: stepClauses_def rangeKeys_def)

lemma stepClauses_other:
  "k \<noteq> ''$regex'' \<Longrightarrow> stepClauses f operators k v rh = stepClauses f operators' k v rh'"
  by (simp add: stepClauses_def)

lemma stepClauses_unrecognized:
  "u \<notin> set recognizedOperators \<Longrightarrow> stepClauses f operators u x rh = []"
  by (auto simp: stepClauses_def recognizedOperators_def rangeKeys_def)

lemma stepClauses_single:
  "k \<in> set clauseOperators \<or> (k = ''$regex'' \<and> \<not> rh \<and> typeof v = ''string'') \<Longrightarrow>
   \<exists>c. stepClauses f operators k v rh = [c]"
  by (auto simp: stepClauses_def clauseOperators_def rangeKeys_def)

lemma stepClauses_none:
  "(k = ''$regex'' \<and> typeof v \<noteq> ''string'') \<or> k = ''$options'' \<Longrightarrow>
   stepClauses f operators k v rh = []"
  by (auto simp: stepClauses_def rangeKeys_def)

lemma stepWarnings_simps [simp]:
  "k \<in> set recognizedOperators \<Longrightarrow> stepWarnings k = []"
  "u \<notin> set recognizedOperators \<Longrightarrow> stepWarnings u = [UnsupportedOperatorWarning u]"
  by (simp_all add: stepWarnings_def)

lemma loop_regex:
  "convertFieldOperatorsLoop f operators kvs clauses rh = (w, Inr cs) \<Longrightarrow>
   filter (\<lambda>c. clauseKind c = ''regex'') cs =
     filter (\<lambda>c. clauseKind c = ''regex'') clauses @
     (if rh then []
      else case map_of kvs ''$regex'' of
             None \<Rightarrow> []
           | Some v \<Rightarrow> if typeof v = ''string''
                       then [regexClause f v (regexOptions operators)] else [])"
proof (induction kvs arbitrary: clauses rh w)
  case Nil
  then show ?case by simp
next
  case (Cons kv rest)
  obtain k v where kv: "kv = (k, v)"
    by (cases kv)
  show ?case
  proof (cases "k = ''$not''")
    case True
    with Cons.prems obtain w1 ncs w2 where
      "convertFieldOperatorsLoop f operators rest (clauses @ [mustNotClause ncs]) rh = (w2, Inr cs)"
      unfolding kv
      by (auto simp: loop_not afterLog_eq_Inr simp del: loop_Cons split: prod.splits sum.splits)
    from Cons.IH [OF this] True show ?thesis
      unfolding kv by simp
  next
    case False
    with Cons.prems obtain w2 where
      "convertFieldOperatorsLoop f operators rest (clauses @ stepClauses f operators k v rh)
         (rh \<or> k = ''$regex'') = (w2, Inr cs)"
      unfolding kv by (auto simp: loop_simple afterLog_eq_Inr simp del: loop_Cons)
    from Cons.IH [OF this] show ?thesis
      unfolding kv by (auto simp: filter_regex_step)
  qed
qed

lemma loop_handled:
  "convertFieldOperatorsLoop f operators kvs clauses True =
   convertFieldOperatorsLoop f operators' (filter (\<lambda>(k, x). k \<noteq> ''$regex'') kvs) clauses rh'"
proof (induction kvs arbitrary: clauses)
  case Nil
  show ?case by simp
next
  case (Cons kv rest)
  obtain k v where kv: "kv = (k, v)"
    by (cases kv)
  consider "k = ''$not''" | "k = ''$regex''" | "k \<noteq> ''$not''" "k \<noteq> ''$regex''"
    by blast
  then show ?case
  proof cases
    case 1
    then show ?thesis
      unfolding kv
      by (simp add: loop_not Cons.IH del: loop_Cons convertFieldOperators.simps
          split: prod.split sum.split)
  next
    case 2
    then show ?thesis
      unfolding kv
      by (simp add: loop_simple stepClauses_def rangeKeys_def recognizedOperators_def Cons.IH
          del: loop_Cons)
  next
    case 3
    then show ?thesis
      unfolding kv
      by (simp add: loop_simple stepClauses_other [of k f operators v True operators' rh']
          Cons.IH del: loop_Cons)
  qed
qed

lemma loop_nonstring:
  "map_of kvs ''$regex'' = Some v \<Longrightarrow> typeof v \<noteq> ''string'' \<Longrightarrow>
   convertFieldOperatorsLoop f operators kvs clauses False =
   convertFieldOperatorsLoop f operators' (filter (\<lambda>(k, x). k \<noteq> ''$regex'') kvs) clauses False"
proof (induction kvs arbitrary: clauses)
  case Nil
  then show ?case by simp
next
  case (Cons kv rest)
  obtain k x where kv: "kv = (k, x)"
    by (cases kv)
  consider "k = ''$not''" | "k = ''$regex''" | "k \<noteq> ''$not''" "k \<noteq> ''$regex''"
    by blast
  then show ?case
  proof cases
    case 1
    with Cons.prems have "map_of rest ''$regex'' = Some v"
      by (simp add: kv)
    note IH = Cons.IH [OF this Cons.prems(2)]
    from 1 show ?thesis
      unfolding kv
      by (simp add: loop_not IH del: loop_Cons convertFieldOperators.simps
          split: prod.split sum.split)
  next
    case 2
    with Cons.prems have "x = v"
      by (simp add: kv)
    with 2 Cons.prems(2) show ?thesis
      unfolding kv
      by (simp add: loop_simple stepClauses_none recognizedOperators_def
          loop_handled [of f operators rest clauses operators' False] del: loop_Cons)
  next
    case 3
    with Cons.prems have "map_of rest ''$regex'' = Some v"
      by (simp add: kv)
    note IH = Cons.IH [OF this Cons.prems(2)]
    from 3 show ?thesis
      unfolding kv
      by (simp add: loop_simple stepClauses_other [of k f operators x False operators' False]
          IH del: loop_Cons)
  qed
qed

lemma regexClause_string:
  "regexClause f (JStr p) (regexOptions operators) =
   JObj [(''regex'', JObj ([(''query'', JStr p), (''path'', JStr f)] @
     (if truthy (lookupProp operators ''$options'')
      then [(''options'', lookupProp operators ''$options'')] else [])))]"
  by (simp add: regexClause_def regexOptions_def)

lemma snd_afterLog [simp]: "snd (afterLog w r) = snd r"
  by (simp add: afterLog_def)

lemma stepClauses_options:
  "lookupProp operators ''$options'' = lookupProp operators' ''$options'' \<Longrightarrow>
   stepClauses f operators k v rh = stepClauses f operators' k v rh"
  by (simp add: stepClauses_def regexOptions_def)

lemma map_of_filter_key:
  "P k \<Longrightarrow> map_of (filter (\<lambda>(k', v). P k') kvs) k = map_of kvs k"
  by (induction kvs) auto

lemma loop_drop_unrecognized:
  "lookupProp operators ''$options'' = lookupProp operators' ''$options'' \<Longrightarrow>
   snd (convertFieldOperatorsLoop f operators kvs clauses rh) =
   snd (convertFieldOperatorsLoop f operators'
          (filter (\<lambda>(k, v). k \<in> set recognizedOperators) kvs) clauses rh)"
proof (induction kvs arbitrary: clauses rh)
  case Nil
  show ?case by simp
next
  case (Cons kv rest)
  obtain k v where kv: "kv = (k, v)"
    by (cases kv)
  note IH = Cons.IH [OF Cons.prems]
  consider "k = ''$not''" | "k \<notin> set recognizedOperators"
    | "k \<noteq> ''$not''" "k \<in> set recognizedOperators"
    by blast
  then show ?case
  proof cases
    case 1
    then show ?thesis
      unfolding kv
      by (simp add: loop_not IH recognizedOperators_def
          del: loop_Cons convertFieldOperators.simps split: prod.split sum.split)
  next
    case 2
    then have "k \<noteq> ''$not''" "k \<noteq> ''$regex''"
      by (auto simp: recognizedOperators_def)
    with 2 show ?thesis
      unfolding kv by (simp add: loop_simple stepClauses_unrecognized IH del: loop_Cons)
  next
    case 3
    then show ?thesis
      unfolding kv
      by (simp add: loop_simple stepClauses_options [OF Cons.prems] IH del: loop_Cons)
  qed
qed


lemma two_keys_recognized_first:
  assumes "u \<notin> set recognizedOperators" "k \<in> set recognizedOperators" "k \<noteq> ''$not''"
  shows "convertFieldOperators f (JObj [(k, v), (u, x)]) =
    ([UnsupportedOperatorWarning u], Inr (stepClauses f (JObj [(k, v), (u, x)]) k v False))"
proof -
  from assms(1) have "u \<noteq> ''$not''"
    by (auto simp: recognizedOperators_def)
  with assms show ?thesis
    by (simp add: loop_simple stepClauses_unrecognized del: loop_Cons)
qed

lemma two_keys_recognized_second:
  assumes "u \<notin> set recognizedOperators" "k \<in> set recognizedOperators" "k \<noteq> ''$not''"
  shows "convertFieldOperators f (JObj [(u, x), (k, v)]) =
    ([UnsupportedOperatorWarning u], Inr (stepClauses f (JObj [(u, x), (k, v)]) k v False))"
proof -
  from assms(1) have "u \<noteq> ''$not''" "u \<noteq> ''$regex''"
    by (auto simp: recognizedOperators_def)
  with assms show ?thesis
    by (simp add: loop_simple stepClauses_unrecognized del: loop_Cons)
qed

lemma two_keys_not:
  assumes "u \<notin> set recognizedOperators"
    and "ops = [(''$not'', v), (u, x)] \<or> ops = [(u, x), (''$not'', v)]"
    and "convertFieldOperators f v = (w, Inr ncs)"
  shows "\<exists>w'. convertFieldOperators f (JObj ops) = (w', Inr [mustNotClause ncs]) \<and>
    length w' = Suc (length w)"
proof -
  from assms(1) have u: "u \<noteq> ''$not''" "u \<noteq> ''$regex''"
    by (auto simp: recognizedOperators_def)
  have top: "convertFieldOperators f (JObj ops) = convertFieldOperatorsLoop f (JObj ops) ops [] False"
    by simp
  from assms(2) show ?thesis
  proof
    assume "ops = [(''$not'', v), (u, x)]"
    then have "convertFieldOperatorsLoop f (JObj ops) ops [] False =
        (w @ [UnsupportedOperatorWarning u], Inr [mustNotClause ncs])"
      using assms(1,3) u
      by (simp add: loop_simple loop_not stepClauses_unrecognized
          del: loop_Cons convertFieldOperators.simps)
    then have "convertFieldOperators f (JObj ops) =
        (w @ [UnsupportedOperatorWarning u], Inr [mustNotClause ncs])"
      by (simp only: top)
    moreover have "length (w @ [UnsupportedOperatorWarning u]) = Suc (length w)"
      by simp
    ultimately show ?thesis
      by blast
  next
    assume "ops = [(u, x), (''$not'', v)]"
    then have "convertFieldOperatorsLoop f (JObj ops) ops [] False =
        (UnsupportedOperatorWarning u # w, Inr [mustNotClause ncs])"
      using assms(1,3) u
      by (simp add: loop_simple loop_not stepClauses_unrecognized
          del: loop_Cons convertFieldOperators.simps)
    then have "convertFieldOperators f (JObj ops) =
        (UnsupportedOperatorWarning u # w, Inr [mustNotClause ncs])"
      by (simp only: top)
    moreover have "length (UnsupportedOperatorWarning u # w) = Suc (length w)"
      by simp
    ultimately show ?thesis
      by blast
  qed
qed

lemma two_keys_recognized:
  assumes "u \<notin> set recognizedOperators" "k \<in> set recognizedOperators" "k \<noteq> ''$not''"
    and "ops = [(k, v), (u, x)] \<or> ops = [(u, x), (k, v)]"
  shows "convertFieldOperators f (JObj ops) =
    ([UnsupportedOperatorWarning u], Inr (stepClauses f (JObj ops) k v False))"
  using assms(4)
proof
  assume "ops = [(k, v), (u, x)]"
  then show ?thesis
    using two_keys_recognized_first [OF assms(1-3)] by (simp only:)
next
  assume "ops = [(u, x), (k, v)]"
  then show ?thesis
    using two_keys_recognized_second [OF assms(1-3)] by (simp only:)
qed

lemma clauseOperators_recognized:
  "k \<in> set clauseOperators \<or> k = ''$regex'' \<or> k = ''$options'' \<Longrightarrow>
   k \<in> set recognizedOperators \<and> k \<noteq> ''$not''"
  by (auto simp: clauseOperators_def recognizedOperators_def)

lemma lookup_options_filter:
  "lookupProp (JObj kvs) ''$options'' =
   lookupProp (JObj (filter (\<lambda>(k, v). k \<in> set recognizedOperators) kvs)) ''$options''"
  using map_of_filter_key [of "\<lambda>k. k \<in> set recognizedOperators" "''$options''" kvs]
  by (simp add: recognizedOperators_def)

subsection \<open>Exceptions of the query converter\<close>

text \<open>
  A filter expression contains an unsupported logical keyword: one of its own keys starts
  with \<^verbatim>\<open>$\<close> and is not \<^verbatim>\<open>$and\<close>, \<^verbatim>\<open>$or\<close> or \<^verbatim>\<open>$nor\<close> (so \<^verbatim>\<open>$not\<close> counts), or such a key
  stands in a filter expression listed under one of these three.
\<close>

definition junctions :: "string list" where
  "junctions = [''$and'', ''$or'', ''$nor'']"

inductive unsupportedKeyword :: "jsval \<Rightarrow> bool" where
  top: "(k, v) \<in> set kvs \<Longrightarrow> startsWith k (CHR ''$'') \<Longrightarrow> k \<notin> set junctions \<Longrightarrow>
     unsupportedKeyword (JObj kvs)"
| nested: "(k, JArr subQueries) \<in> set kvs \<Longrightarrow> k \<in> set junctions \<Longrightarrow>
     subQuery \<in> set subQueries \<Longrightarrow> unsupportedKeyword subQuery \<Longrightarrow>
     unsupportedKeyword (JObj kvs)"

code_pred unsupportedKeyword .

definition fails :: "'a res \<Rightarrow> bool" where
  "fails r = (case snd r of Inl e \<Rightarrow> True | Inr x \<Rightarrow> False)"

lemma fails_simps [simp]:
  "fails (w, Inl e)" "\<not> fails (w, Inr x)"
  "fails (afterLog w r) = fails r" "fails (consoleWarn d r) = fails r"
  by (simp_all add: fails_def afterLog_def consoleWarn_def)

lemma fails_iff: "fails r \<longleftrightarrow> (\<exists>w e. r = (w, Inl e))"
  by (cases r) (auto simp: fails_def split: sum.splits)

lemma fails_case:
  "fails r \<Longrightarrow> fails (case r of (w, Inl e) \<Rightarrow> (w, Inl e) | (w, Inr x) \<Rightarrow> h w x)"
  by (auto simp: fails_iff)

lemma fails_case_later:
  "(\<And>w x. fails (h w x)) \<Longrightarrow>
   fails (case r of (w, Inl e) \<Rightarrow> (w, Inl e) | (w, Inr x) \<Rightarrow> h w x)"
  by (cases r; cases "snd r") auto

lemmas queryLoop_Cons = convertQueryLoop.simps(2)

definition convertEntry :: "string \<Rightarrow> jsval \<Rightarrow> jsval list res" where
  "convertEntry k v =
     (if startsWith k (CHR ''$'') then convertLogicalOperator k v else convertFieldQuery k v)"

lemma queryLoop_step:
  "convertQueryLoop ((k, v) # rest) clauses =
     (case convertEntry k v of
        (w, Inl e) \<Rightarrow> (w, Inl e)
      | (w, Inr converted) \<Rightarrow> afterLog w (convertQueryLoop rest (clauses @ converted)))"
  by (simp only: queryLoop_Cons convertEntry_def)

lemma queryLoop_fails:
  "(k, v) \<in> set kvs \<Longrightarrow> fails (convertEntry k v) \<Longrightarrow> fails (convertQueryLoop kvs clauses)"
proof (induction kvs arbitrary: clauses)
  case Nil
  then show ?case by simp
next
  case (Cons kv rest)
  obtain k' v' where kv: "kv = (k', v')"
    by (cases kv)
  show ?case
  proof (cases "kv = (k, v)")
    case True
    with kv have e: "k' = k" "v' = v"
      by simp_all
    from Cons.prems(2) show ?thesis
      unfolding kv e queryLoop_step by (rule fails_case)
  next
    case False
    with Cons.prems have "(k, v) \<in> set rest"
      by simp
    from Cons.IH [OF this Cons.prems(2)] show ?thesis
      unfolding kv queryLoop_step by (intro fails_case_later) simp
  qed
qed

lemmas flatMap_Cons = flatMapConvertQuery.simps(2)

lemma flatMap_fails:
  "subQuery \<in> set subQueries \<Longrightarrow> fails (convertQuery subQuery) \<Longrightarrow>
   fails (flatMapConvertQuery subQueries)"
proof (induction subQueries)
  case Nil
  then show ?case by simp
next
  case (Cons q later)
  show ?case
  proof (cases "q = subQuery")
    case True
    with Cons.prems(2) show ?thesis
      by (simp only: flatMap_Cons fails_case)
  next
    case False
    with Cons.prems have "subQuery \<in> set later"
      by simp
    from Cons.IH [OF this Cons.prems(2)] obtain w e where "flatMapConvertQuery later = (w, Inl e)"
      by (auto simp only: fails_iff)
    then show ?thesis
      unfolding flatMap_Cons by (intro fails_case_later) simp
  qed
qed

lemma junction_fails:
  assumes "k \<in> set junctions" and "fails (flatMapConvertQuery subQueries)"
  shows "fails (convertLogicalOperator k (JArr subQueries))"
proof -
  from assms(2) obtain w e where "flatMapConvertQuery subQueries = (w, Inl e)"
    by (auto simp only: fails_iff)
  with assms(1) show ?thesis
    by (auto simp: junctions_def)
qed

lemma junction_dollar: "k \<in> set junctions \<Longrightarrow> startsWith k (CHR ''$'')"
  by (auto simp: junctions_def startsWith_def)

lemma keyword_fails:
  "k \<notin> set junctions \<Longrightarrow> fails (convertLogicalOperator k v)"
  by (simp add: junctions_def)

lemma unsupportedKeyword_fails: "unsupportedKeyword q \<Longrightarrow> fails (convertQuery q)"
proof (induction rule: unsupportedKeyword.induct)
  case (top k v kvs)
  then have "fails (convertEntry k v)"
    by (simp add: convertEntry_def keyword_fails del: convertLogicalOperator.simps)
  with top(1) have "fails (convertQueryLoop kvs [])"
    by (rule queryLoop_fails)
  then show ?case
    by simp
next
  case (nested k subQueries kvs subQuery)
  then have "fails (convertLogicalOperator k (JArr subQueries))"
    by (intro junction_fails flatMap_fails [of subQuery])
  with nested(2) have "fails (convertEntry k (JArr subQueries))"
    by (simp add: convertEntry_def junction_dollar del: convertLogicalOperator.simps)
  with nested(1) have "fails (convertQueryLoop kvs [])"
    by (rule queryLoop_fails)
  then show ?case
    by simp
qed

lemma unsupportedKeyword_nonempty: "unsupportedKeyword q \<Longrightarrow> \<exists>kv kvs. q = JObj (kv # kvs)"
proof (induction rule: unsupportedKeyword.induct)
  case (top k v kvs)
  then show ?case
    by (cases kvs) auto
next
  case (nested k subQueries kvs subQuery)
  from nested(1) show ?case
    by (cases kvs) auto
qed

lemma convertQueryToSearch_fails:
  assumes "fails (convertQuery (JObj (kv # kvs)))"
  shows "fails (convertQueryToSearch this (JObj (kv # kvs)))"
proof -
  from assms obtain w e where "convertQuery (JObj (kv # kvs)) = (w, Inl e)"
    by (auto simp only: fails_iff)
  then show ?thesis
    by (simp add: convertQueryToSearch_def del: convertQuery.simps)
qed

lemma convertQueryToSearchWithOptions_fails:
  "fails (convertQueryToSearch this q) \<Longrightarrow> fails (convertQueryToSearchWithOptions this q options)"
  unfolding convertQueryToSearchWithOptions_def by (rule fails_case)

lemma convertFindQuery_fails:
  assumes "fails (convertQueryToSearch this q)"
  shows "fails (convertFindQuery this q options)"
proof (cases "getProp (defaultTo options (JObj [])) ''sort''")
  case (Inl e)
  then show ?thesis
    by (simp add: convertFindQuery_def)
next
  case (Inr sortOption)
  have "fails (if truthy sortOption
      then convertQueryToSearchWithOptions this q (JObj [(''sort'', sortOption)])
      else convertQueryToSearch this q)"
    using assms convertQueryToSearchWithOptions_fails [OF assms] by simp
  then show ?thesis
    unfolding convertFindQuery_def Let_def Inr sum.case by (rule fails_case)
qed

subsection \<open>The shape of clauses and search stages\<close>

text \<open>
  Every clause that the query converter returns is an object with exactly one key, the
  name of its operator. This is what keeps the spread in \<^verbatim>\<open>convertQueryToSearch\<close> from
  touching the \<^verbatim>\<open>index\<close> property.
\<close>

definition clauseKinds :: "string list" where
  "clauseKinds = [''equals'', ''range'', ''in'', ''exists'', ''regex'', ''compound'']"

definition isClause :: "jsval \<Rightarrow> bool" where
  "isClause c \<longleftrightarrow> clauseKind c \<in> set clauseKinds"

lemma isClause_simps [simp]:
  "isClause (equalsClause f v)" "isClause (rangeClause f b v)" "isClause (inClause f v)"
  "isClause (existsClause f)" "isClause (regexClause f q opts)" "isClause (mustClause cs)"
  "isClause (shouldClause cs)" "isClause (mustNotClause cs)"
  by (simp_all add: isClause_def clauseKinds_def)

lemma isClause_shape:
  assumes "isClause c"
  obtains k v where "c = JObj [(k, v)]" "k \<in> set clauseKinds"
proof (cases c rule: clauseKind.cases)
  case (1 k v)
  with assms that show ?thesis
    by (simp add: isClause_def)
qed (use assms in \<open>simp_all add: isClause_def clauseKinds_def\<close>)

lemma spread_isClause:
  assumes "isClause c"
  shows "\<exists>body. spread [(''index'', i)] c = (''index'', i) # body"
proof -
  from assms obtain k v where c: "c = JObj [(k, v)]" and k: "k \<in> set clauseKinds"
    by (rule isClause_shape)
  from k have "k \<noteq> ''index''" "\<not> isArrayIndex k"
    by (auto simp: clauseKinds_def)
  then show ?thesis
    unfolding c by (simp add: spread_clause)
qed

lemma stepClauses_isClause: "list_all isClause (stepClauses f operators k v rh)"
  by (simp add: stepClauses_def)

lemma loop_isClause:
  "convertFieldOperatorsLoop f operators kvs clauses rh = (w, Inr cs) \<Longrightarrow>
   list_all isClause clauses \<Longrightarrow> list_all isClause cs"
proof (induction kvs arbitrary: clauses rh w)
  case Nil
  then show ?case by simp
next
  case (Cons kv rest)
  obtain k v where kv: "kv = (k, v)"
    by (cases kv)
  show ?case
  proof (cases "k = ''$not''")
    case True
    with Cons.prems(1) obtain ncs w2 where
      "convertFieldOperatorsLoop f operators rest (clauses @ [mustNotClause ncs]) rh = (w2, Inr cs)"
      unfolding kv
      by (auto simp: loop_not afterLog_eq_Inr simp del: loop_Cons split: prod.splits sum.splits)
    from Cons.IH [OF this] Cons.prems(2) show ?thesis
      by simp
  next
    case False
    with Cons.prems(1) obtain w2 where
      "convertFieldOperatorsLoop f operators rest (clauses @ stepClauses f operators k v rh)
         (rh \<or> k = ''$regex'') = (w2, Inr cs)"
      unfolding kv by (auto simp: loop_simple afterLog_eq_Inr simp del: loop_Cons)
    from Cons.IH [OF this] Cons.prems(2) show ?thesis
      by (simp add: stepClauses_isClause)
  qed
qed

lemma convertFieldOperators_isClause:
  assumes "convertFieldOperators f v = (w, Inr cs)"
  shows "list_all isClause cs"
proof (cases "entries v")
  case (Inl e)
  with assms show ?thesis
    by simp
next
  case (Inr kvs)
  with assms have "convertFieldOperatorsLoop f v kvs [] False = (w, Inr cs)"
    by simp
  from loop_isClause [OF this] show ?thesis
    by simp
qed

lemma convertFieldQuery_isClause:
  assumes "convertFieldQuery f v = (w, Inr cs)"
  shows "list_all isClause cs"
proof (cases v)
  case (JObj kvs)
  with assms show ?thesis
    using convertFieldOperators_isClause [of f v w cs]
    by (simp del: convertFieldOperators.simps)
next
  case (JArr elems)
  with assms show ?thesis
    by (auto simp: convertFieldQuery_def list_all_iff split: if_splits)
qed (use assms in \<open>auto simp: convertFieldQuery_def\<close>)

lemma junction_isClause:
  assumes "k \<in> set junctions" and "convertLogicalOperator k v = (w, Inr cs)"
  shows "list_all isClause cs"
proof (cases v)
  case (JArr subQueries)
  obtain w' r where "flatMapConvertQuery subQueries = (w', r)"
    by (cases "flatMapConvertQuery subQueries")
  with assms JArr show ?thesis
    by (cases r) (auto simp: junctions_def)
qed (use assms in \<open>auto simp: junctions_def\<close>)

lemma convertEntry_isClause:
  assumes "convertEntry k v = (w, Inr cs)"
  shows "list_all isClause cs"
proof (cases "startsWith k (CHR ''$'')")
  case True
  with assms have r: "convertLogicalOperator k v = (w, Inr cs)"
    by (simp add: convertEntry_def del: convertLogicalOperator.simps)
  have "k \<in> set junctions"
  proof (rule ccontr)
    assume "k \<notin> set junctions"
    then have "fails (convertLogicalOperator k v)"
      by (rule keyword_fails)
    with r show False
      by (simp del: convertLogicalOperator.simps)
  qed
  from junction_isClause [OF this r] show ?thesis .
next
  case False
  with assms have "convertFieldQuery k v = (w, Inr cs)"
    by (simp add: convertEntry_def del: convertLogicalOperator.simps)
  then show ?thesis
    by (rule convertFieldQuery_isClause)
qed

lemma case_res_Inr:
  "(case r of (w, Inl e) \<Rightarrow> (w, Inl e) | (w, Inr x) \<Rightarrow> h w x) = (w', Inr y) \<longleftrightarrow>
   (\<exists>w x. r = (w, Inr x) \<and> h w x = (w', Inr y))"
  by (cases r; cases "snd r") auto

lemma queryLoop_isClause:
  "convertQueryLoop kvs clauses = (w, Inr cs) \<Longrightarrow>
   list_all isClause clauses \<Longrightarrow> list_all isClause cs"
proof (induction kvs arbitrary: clauses w)
  case Nil
  then show ?case by simp
next
  case (Cons kv rest)
  obtain k v where kv: "kv = (k, v)"
    by (cases kv)
  from Cons.prems(1) obtain w1 converted w2 where
    e: "convertEntry k v = (w1, Inr converted)" and
    l: "convertQueryLoop rest (clauses @ converted) = (w2, Inr cs)"
    unfolding kv queryLoop_step case_res_Inr afterLog_eq_Inr by blast
  from convertEntry_isClause [OF e] Cons.prems(2) have "list_all isClause (clauses @ converted)"
    by simp
  from Cons.IH [OF l this] show ?case .
qed

lemma convertQuery_isClause:
  assumes "convertQuery q = (w, Inr cs)"
  shows "list_all isClause cs"
proof (cases "entries q")
  case (Inl e)
  with assms show ?thesis
    by simp
next
  case (Inr kvs)
  with assms have "convertQueryLoop kvs [] = (w, Inr cs)"
    by simp
  from queryLoop_isClause [OF this] show ?thesis
    by simp
qed

definition searchStageOf :: "converter \<Rightarrow> jsval \<Rightarrow> bool" where
  "searchStageOf this s \<longleftrightarrow>
     (\<exists>body. s = JObj [(''$search'', JObj ((''index'', indexName this) # body))])"

lemma searchStageOf_matchAll [simp]: "searchStageOf this (matchAll this)"
  by (simp add: searchStageOf_def matchAll_def)

lemma convertQueryToSearch_shape:
  assumes "convertQueryToSearch this q = (w, Inr s)"
  shows "searchStageOf this s"
proof (cases "entries q")
  case (Inl e)
  with assms show ?thesis
    by (simp add: convertQueryToSearch_def)
next
  case (Inr kvs)
  show ?thesis
  proof (cases kvs)
    case Nil
    with assms Inr show ?thesis
      by (auto simp: convertQueryToSearch_def simp del: convertQuery.simps)
  next
    case (Cons kv rest)
    obtain w' r where q: "convertQuery q = (w', r)"
      by (cases "convertQuery q")
    show ?thesis
    proof (cases r)
      case (Inl e)
      with assms Inr Cons q show ?thesis
        by (simp add: convertQueryToSearch_def del: convertQuery.simps)
    next
      case r: (Inr cs)
      with q have all: "list_all isClause cs"
        using convertQuery_isClause by blast
      consider "cs = []" | c where "cs = [c]" | "length cs > 1"
        by (cases cs rule: list.exhaust; cases "tl cs") auto
      then show ?thesis
      proof cases
        case 1
        with assms Inr Cons q r show ?thesis
          by (auto simp: convertQueryToSearch_def simp del: convertQuery.simps)
      next
        case 2
        with all obtain body where "spread [(''index'', indexName this)] c =
            (''index'', indexName this) # body"
          using spread_isClause [of c "indexName this"] by auto
        with 2 assms Inr Cons q r show ?thesis
          by (auto simp: convertQueryToSearch_def searchStageOf_def simp del: convertQuery.simps)
      next
        case 3
        with assms Inr Cons q r show ?thesis
          by (auto simp: convertQueryToSearch_def searchStageOf_def simp del: convertQuery.simps
              split: if_splits)
      qed
    qed
  qed
qed

lemma setProp_sort:
  "\<exists>body'. setProp ((''index'', i) # body) ''sort'' x = (''index'', i) # body'"
  by (simp add: setProp_def)

lemma setSearchSort_shape:
  assumes "searchStageOf this s" and "setSearchSort s x = Inr s'"
  shows "searchStageOf this s'"
proof -
  from assms(1) obtain body where s: "s = JObj [(''$search'', JObj ((''index'', indexName this) # body))]"
    by (auto simp: searchStageOf_def)
  obtain body' where "setProp ((''index'', indexName this) # body) ''sort'' x =
      (''index'', indexName this) # body'"
    using setProp_sort by blast
  with assms(2) show ?thesis
    unfolding s by (auto simp: setSearchSort_def searchStageOf_def setProp_def)
qed

lemma convertQueryToSearchWithOptions_shape:
  assumes "convertQueryToSearchWithOptions this q options = (w, Inr s)"
  shows "searchStageOf this s"
proof -
  obtain w0 r0 where b: "convertQueryToSearch this q = (w0, r0)"
    by (cases "convertQueryToSearch this q")
  show ?thesis
  proof (cases r0)
    case (Inl e)
    with assms b show ?thesis
      by (simp add: convertQueryToSearchWithOptions_def)
  next
    case (Inr baseSearch)
    with b have base: "searchStageOf this baseSearch"
      using convertQueryToSearch_shape by blast
    from assms b Inr have "s = baseSearch \<or> (\<exists>x. setSearchSort baseSearch x = Inr s)"
      by (auto simp: convertQueryToSearchWithOptions_def split: sum.splits if_splits prod.splits)
    with base show ?thesis
      using setSearchSort_shape by blast
  qed
qed


text \<open>
  Stages of an output pipeline: passed through from the input, or without a \<^verbatim>\<open>$search\<close>
  property, or a search stage of this converter.
\<close>

definition searchIndex :: "jsval \<Rightarrow> jsval" where
  "searchIndex s = lookupProp (lookupProp s ''$search'') ''index''"

definition accountedFor :: "converter \<Rightarrow> jsval list \<Rightarrow> jsval \<Rightarrow> bool" where
  "accountedFor this input s \<longleftrightarrow>
     s \<in> set input \<or> lookupProp s ''$search'' = JUndefined \<or> searchIndex s = indexName this"

lemma searchStageOf_index: "searchStageOf this s \<Longrightarrow> searchIndex s = indexName this"
  by (auto simp: searchStageOf_def searchIndex_def)

lemma scanStages_remaining:
  "scanStages options stages i st = Inr (st', j, remaining) \<Longrightarrow>
   set remaining \<subseteq> set stages \<and>
   (projectStage st' = projectStage st \<or> projectStage st' \<in> set stages)"
proof (induction stages arbitrary: i st)
  case Nil
  then show ?case by simp
next
  case (Cons stage later)
  from Cons.prems show ?case
    by (auto split: sum.splits if_splits dest!: Cons.IH)
qed

lemma optimizePipelineSequence_accounted:
  assumes "optimizePipelineSequence this pipeline i options = (w, Inr (Optimized s r n))"
  shows "searchStageOf this s \<and> (\<forall>x \<in> set r. accountedFor this pipeline x)"
proof -
  define opts where "opts = defaultTo options (JObj [])"
  from assms obtain query st r0 where
    scan: "scanStages opts (drop (i + 1) pipeline) (i + 1) noStages = Inr (st, n, r0)" and
    search: "convertQueryToSearchWithOptions this query
      (JObj [(''sort'', optionalProp (sortStage st) ''$sort'')]) = (w, Inr s)" and
    r: "r = (if truthy (limitStage st)
             then [JObj [(''$limit'', lookupProp (limitStage st) ''$limit'')]] else []) @
            (if truthy (skipStage st)
             then [JObj [(''$skip'', lookupProp (skipStage st) ''$skip'')]] else []) @ r0 \<or>
        r = projectStage st #
            (if truthy (limitStage st)
             then [JObj [(''$limit'', lookupProp (limitStage st) ''$limit'')]] else []) @
            (if truthy (skipStage st)
             then [JObj [(''$skip'', lookupProp (skipStage st) ''$skip'')]] else []) @ r0 \<and>
        truthy (projectStage st)"
    unfolding optimizePipelineSequence_def Let_def opts_def [symmetric]
    by (auto split: sum.splits if_splits prod.splits)
  from scanStages_remaining [OF scan]
  have sub: "set r0 \<subseteq> set pipeline"
    and proj: "projectStage st = JNull \<or> projectStage st \<in> set pipeline"
    using set_drop_subset [of "i + 1" pipeline] by (auto simp: noStages_def)
  have "accountedFor this pipeline x" if "x \<in> set r" for x
    using r that sub proj
    by (auto simp: accountedFor_def split: if_splits)
  with convertQueryToSearchWithOptions_shape [OF search] show ?thesis
    by blast
qed

lemma element_in_set: "i < length xs \<Longrightarrow> element xs i \<in> set xs"
  by (simp add: element_def)

lemma convertPipelineLoop_accounted:
  "convertPipelineLoop this pipeline options i acc = (w, Inr out) \<Longrightarrow>
   \<forall>x \<in> set acc. accountedFor this pipeline x \<Longrightarrow>
   \<forall>x \<in> set out. accountedFor this pipeline x"
proof (induction "length pipeline - i" arbitrary: i acc w rule: less_induct)
  case less
  note unfold = convertPipelineLoop.simps [of this pipeline options i acc]
  show ?case
  proof (cases "i < length pipeline")
    case False
    with less.prems show ?thesis
      by (simp add: unfold)
  next
    case inside: True
    then have stage: "accountedFor this pipeline (element pipeline i)"
      by (simp add: accountedFor_def element_in_set)
    show ?thesis
    proof (cases "getProp (element pipeline i) ''$match''")
      case (Inl e)
      with less.prems(1) inside show ?thesis
        by (simp add: unfold)
    next
      case (Inr query)
      show ?thesis
      proof (cases "truthy query")
        case False
        with less.prems(1) inside Inr
        have l: "convertPipelineLoop this pipeline options (i + 1) (acc @ [element pipeline i]) =
            (w, Inr out)"
          by (simp add: unfold)
        have m: "length pipeline - (i + 1) < length pipeline - i"
          using inside by simp
        have a: "\<forall>x \<in> set (acc @ [element pipeline i]). accountedFor this pipeline x"
          using less.prems(2) stage by simp
        from less.hyps [OF m l a] show ?thesis .
      next
        case True
        obtain w1 r1 where opt: "optimizePipelineSequence this pipeline i options = (w1, r1)"
          by (cases "optimizePipelineSequence this pipeline i options")
        show ?thesis
        proof (cases r1)
          case (Inl e)
          with less.prems(1) inside Inr True opt show ?thesis
            by (simp add: unfold)
        next
          case r1: (Inr optimization)
          show ?thesis
          proof (cases optimization)
            case NotOptimized
            obtain w2 r2 where cq: "convertQueryToSearch this query = (w2, r2)"
              by (cases "convertQueryToSearch this query")
            show ?thesis
            proof (cases r2)
              case (Inl e)
              with less.prems(1) inside Inr True opt r1 NotOptimized cq show ?thesis
                by (simp add: unfold)
            next
              case r2: (Inr search)
              with less.prems(1) inside Inr True opt r1 NotOptimized cq
              obtain w3 where l: "convertPipelineLoop this pipeline options (i + 1)
                  (acc @ [search]) = (w3, Inr out)"
                by (auto simp: unfold afterLog_eq_Inr)
              have m: "length pipeline - (i + 1) < length pipeline - i"
                using inside by simp
              have "accountedFor this pipeline search"
                using convertQueryToSearch_shape [of this query w2 search] cq r2
                by (simp add: accountedFor_def searchStageOf_index)
              then have a: "\<forall>x \<in> set (acc @ [search]). accountedFor this pipeline x"
                using less.prems(2) by simp
              from less.hyps [OF m l a] show ?thesis .
            qed
          next
            case (Optimized search remaining n)
            with less.prems(1) inside Inr True opt r1
            obtain w3 where l: "convertPipelineLoop this pipeline options n
                (acc @ [search] @ remaining) = (w3, Inr out)"
              by (auto simp: unfold afterLog_eq_Inr)
            from opt r1 Optimized have o: "optimizePipelineSequence this pipeline i options =
                (w1, Inr (Optimized search remaining n))"
              by simp
            from optimizePipelineSequence_nextIndex [OF o] inside
            have m: "length pipeline - n < length pipeline - i"
              by simp
            from optimizePipelineSequence_accounted [OF o] less.prems(2)
            have a: "\<forall>x \<in> set (acc @ [search] @ remaining). accountedFor this pipeline x"
              by (auto simp: accountedFor_def searchStageOf_index)
            from less.hyps [OF m l a] show ?thesis .
          qed
        qed
      qed
    qed
  qed
qed

subsection \<open>Folds and sort specifications in general\<close>

text \<open>
  What a fold emits, for every pipeline: the search stage, then the captured limit, then
  the captured skip, then the stages from where the scan stopped. A stage captured as
  projection is not among the emitted stages: it is captured only when
  \<^verbatim>\<open>includeProjection\<close> is truthy, and pushed back only when it is not.
\<close>

lemma scanStages_projection:
  "scanStages options stages i st = Inr (st', j, remaining) \<Longrightarrow>
   truthy (projectStage st') \<Longrightarrow> \<not> truthy (projectStage st) \<Longrightarrow>
   \<exists>flag. getProp options ''includeProjection'' = Inr flag \<and> truthy flag"
proof (induction stages arbitrary: i st)
  case Nil
  then show ?case by simp
next
  case (Cons stage later)
  from Cons.prems show ?case
    by (auto split: sum.splits if_splits dest!: Cons.IH)
qed

lemma fold_output:
  assumes "optimizePipelineSequence this pipeline i options = (w, Inr (Optimized s r n))"
  shows "\<exists>st r0.
    scanStages (defaultTo options (JObj [])) (drop (i + 1) pipeline) (i + 1) noStages =
      Inr (st, n, r0) \<and>
    r = (if truthy (limitStage st)
         then [JObj [(''$limit'', lookupProp (limitStage st) ''$limit'')]] else []) @
        (if truthy (skipStage st)
         then [JObj [(''$skip'', lookupProp (skipStage st) ''$skip'')]] else []) @ r0"
proof -
  define opts where "opts = defaultTo options (JObj [])"
  from assms obtain st r0 where
    scan: "scanStages opts (drop (i + 1) pipeline) (i + 1) noStages = Inr (st, n, r0)" and
    r: "r = (if truthy (limitStage st)
             then [JObj [(''$limit'', lookupProp (limitStage st) ''$limit'')]] else []) @
            (if truthy (skipStage st)
             then [JObj [(''$skip'', lookupProp (skipStage st) ''$skip'')]] else []) @ r0 \<or>
        truthy (projectStage st) \<and>
        (\<exists>flag. getProp opts ''includeProjection'' = Inr flag \<and> \<not> truthy flag)"
    unfolding optimizePipelineSequence_def Let_def opts_def [symmetric]
    by (auto split: sum.splits if_splits prod.splits)
  have "\<not> (truthy (projectStage st) \<and>
      (\<exists>flag. getProp opts ''includeProjection'' = Inr flag \<and> \<not> truthy flag))"
    using scanStages_projection [OF scan] by (auto simp: noStages_def)
  with scan r show ?thesis
    unfolding opts_def by blast
qed

text \<open>
  A sort specification with a direction that is not a number: one diagnostic, for the
  first such field, and no sort in the search stage.
\<close>

lemma convertSortLoop_not_number:
  "\<exists>(field, direction) \<in> set kvs. typeof direction \<noteq> ''number'' \<Longrightarrow>
   \<exists>field direction. (field, direction) \<in> set kvs \<and> typeof direction \<noteq> ''number'' \<and>
     convertSortLoop kvs searchSort = ([ComplexSortWarning field direction], Inr JNull)"
proof (induction kvs arbitrary: searchSort)
  case Nil
  then show ?case by simp
next
  case (Cons kv rest)
  obtain field direction where kv: "kv = (field, direction)"
    by (cases kv)
  show ?case
  proof (cases "typeof direction = ''number''")
    case True
    with Cons.prems kv have "\<exists>(field, direction) \<in> set rest. typeof direction \<noteq> ''number''"
      by auto
    from Cons.IH [OF this, of "setProp searchSort field (JObj [(''order'', direction)])"] True
    show ?thesis
      unfolding kv by auto
  next
    case False
    then show ?thesis
      unfolding kv by auto
  qed
qed

lemma sort_not_number_not_embedded:
  assumes "\<exists>(field, direction) \<in> set kvs. typeof direction \<noteq> ''number''"
    and "convertQueryToSearch this q = (w, Inr base)"
  shows "\<exists>field direction. (field, direction) \<in> set kvs \<and> typeof direction \<noteq> ''number'' \<and>
    convertQueryToSearchWithOptions this q (JObj [(''sort'', JObj kvs)]) =
      (w @ [ComplexSortWarning field direction], Inr base)"
proof -
  from convertSortLoop_not_number [OF assms(1), of "[]"] obtain field direction where
    "(field, direction) \<in> set kvs" "typeof direction \<noteq> ''number''"
    "convertSortLoop kvs [] = ([ComplexSortWarning field direction], Inr JNull)"
    by blast
  with assms(2) show ?thesis
    by (auto simp: convertQueryToSearchWithOptions_def defaultTo_def getProp_def
        convertSortToAtlasSearch_def)
qed

subsection \<open>Where the clauses of a field end up\<close>










subsection \<open>Null values\<close>

text \<open>
  Claim C1. For every field name \<open>f\<close>, the filter \<^verbatim>\<open>{f: null}\<close> translates to a compound
  clause \<^verbatim>\<open>should\<close> with \<^verbatim>\<open>minimumShouldMatch: 1\<close> and exactly two branches, both on path
  \<open>f\<close>: an equality with \<^verbatim>\<open>null\<close> and a \<^verbatim>\<open>mustNot\<close>-wrapped existence test. This holds for
  the field converter on every \<open>f\<close>, and for the whole translation of the one-key filter
  whenever \<open>f\<close> is a field name, that is, does not start with \<^verbatim>\<open>$\<close>.
\<close>

theorem null_two_branches:
  "convertFieldQuery f JNull =
     ([], Inr [JObj [(''compound'', JObj
        [(''should'', JArr
           [JObj [(''equals'', JObj [(''path'', JStr f), (''value'', JNull)])],
            JObj [(''compound'', JObj [(''mustNot'', JArr
               [JObj [(''exists'', JObj [(''path'', JStr f)])]])])]]),
         (''minimumShouldMatch'', JNum 1)])]]) \<and>
   (\<not> startsWith f (CHR ''$'') \<longrightarrow>
    convertFindQuery this (JObj [(f, JNull)]) JUndefined =
     ([], Inr [JObj [(''$search'', JObj
        [(''index'', indexName this),
         (''compound'', JObj
           [(''should'', JArr
              [JObj [(''equals'', JObj [(''path'', JStr f), (''value'', JNull)])],
               JObj [(''compound'', JObj [(''mustNot'', JArr
                  [JObj [(''exists'', JObj [(''path'', JStr f)])]])])]]),
            (''minimumShouldMatch'', JNum 1)])])]]))"
proof -
  have field: "convertFieldQuery f JNull =
      ([], Inr [shouldClause [equalsClause f JNull, mustNotClause [existsClause f]]])"
    by (simp add: convertFieldQuery_def)
  have "convertQueryToSearch this (JObj [(f, JNull)]) =
      ([], Inr (JObj [(''$search'', JObj (spread [(''index'', indexName this)]
         (shouldClause [equalsClause f JNull, mustNotClause [existsClause f]])))]))"
    if "\<not> startsWith f (CHR ''$'')"
    using that by (simp add: convertQueryToSearch_def convertQuery_field field del: convertQuery.simps)
  then show ?thesis
    using field
    by (simp add: convertFindQuery_def defaultTo_def getProp_def shouldClause_def
        equalsClause_def mustNotClause_def existsClause_def spread_clause)
qed

theorem null_two_branches_witness:
  "convertFindQuery (newConverter (JStr ''default'')) (JObj [(''deletedAt'', JNull)]) JUndefined =
     ([], Inr [JObj [(''$search'', JObj
        [(''index'', JStr ''default''),
         (''compound'', JObj
           [(''should'', JArr
              [JObj [(''equals'', JObj [(''path'', JStr ''deletedAt''), (''value'', JNull)])],
               JObj [(''compound'', JObj [(''mustNot'', JArr
                  [JObj [(''exists'', JObj [(''path'', JStr ''deletedAt'')])]])])]]),
            (''minimumShouldMatch'', JNum 1)])])]])"
  using null_two_branches [of "''deletedAt''" "newConverter (JStr ''default'')"]
  by (simp add: startsWith_def newConverter_def)


subsection \<open>Range bounds\<close>




subsection \<open>Pattern matching\<close>

text \<open>
  Claim C5, as the code has it. In an operator set that converts, a \<^verbatim>\<open>$regex\<close> with a
  string value yields exactly one \<^verbatim>\<open>regex\<close> clause, with the raw pattern as \<^verbatim>\<open>query\<close>, the
  field as \<^verbatim>\<open>path\<close> and the \<^verbatim>\<open>$options\<close> of the same operator set as \<^verbatim>\<open>options\<close> when they
  are truthy, wherever the \<^verbatim>\<open>$options\<close> key stands. A \<^verbatim>\<open>$regex\<close> whose value is not a
  string is skipped silently: the outcome and the diagnostics are those of the operator
  set without the \<^verbatim>\<open>$regex\<close> key, so no clause and no diagnostic come from it and the
  other keys are converted as usual.
\<close>

theorem pattern_clause_once:
  "(map_of ops ''$regex'' = Some (JStr p) \<and> \<not> throwsOnOperators (JObj ops) \<longrightarrow>
      (\<exists>w cs. convertFieldOperators f (JObj ops) = (w, Inr cs) \<and>
         filter (\<lambda>c. clauseKind c = ''regex'') cs =
           [JObj [(''regex'', JObj ([(''query'', JStr p), (''path'', JStr f)] @
              (if truthy (lookupProp (JObj ops) ''$options'')
               then [(''options'', lookupProp (JObj ops) ''$options'')] else [])))]])) \<and>
   (map_of ops ''$regex'' = Some v \<and> typeof v \<noteq> ''string'' \<longrightarrow>
      convertFieldOperators f (JObj ops) =
        convertFieldOperators f (JObj (filter (\<lambda>(k, x). k \<noteq> ''$regex'') ops)) \<and>
      (\<forall>w cs. convertFieldOperators f (JObj ops) = (w, Inr cs) \<longrightarrow>
         filter (\<lambda>c. clauseKind c = ''regex'') cs = []))"
proof (intro conjI impI)
  assume a: "map_of ops ''$regex'' = Some (JStr p) \<and> \<not> throwsOnOperators (JObj ops)"
  then obtain w cs where r: "convertFieldOperators f (JObj ops) = (w, Inr cs)"
    using convertFieldOperators_returns by blast
  then have "convertFieldOperatorsLoop f (JObj ops) ops [] False = (w, Inr cs)"
    by simp
  from loop_regex [OF this] a
  have "filter (\<lambda>c. clauseKind c = ''regex'') cs = [regexClause f (JStr p) (regexOptions (JObj ops))]"
    by simp
  with r show "\<exists>w cs. convertFieldOperators f (JObj ops) = (w, Inr cs) \<and>
      filter (\<lambda>c. clauseKind c = ''regex'') cs =
        [JObj [(''regex'', JObj ([(''query'', JStr p), (''path'', JStr f)] @
           (if truthy (lookupProp (JObj ops) ''$options'')
            then [(''options'', lookupProp (JObj ops) ''$options'')] else [])))]]"
    unfolding regexClause_string by blast
next
  assume a: "map_of ops ''$regex'' = Some v \<and> typeof v \<noteq> ''string''"
  then show "convertFieldOperators f (JObj ops) =
      convertFieldOperators f (JObj (filter (\<lambda>(k, x). k \<noteq> ''$regex'') ops))"
    using loop_nonstring [of ops v f "JObj ops" "[]"] by simp
  show "\<forall>w cs. convertFieldOperators f (JObj ops) = (w, Inr cs) \<longrightarrow>
      filter (\<lambda>c. clauseKind c = ''regex'') cs = []"
  proof (intro allI impI)
    fix w cs
    assume "convertFieldOperators f (JObj ops) = (w, Inr cs)"
    then have "convertFieldOperatorsLoop f (JObj ops) ops [] False = (w, Inr cs)"
      by simp
    from loop_regex [OF this] a show "filter (\<lambda>c. clauseKind c = ''regex'') cs = []"
      by simp
  qed
qed

theorem pattern_clause_once_witness:
  "convertFieldOperators ''name'' (JObj [(''$regex'', JStr ''john''), (''$options'', JStr ''i'')]) =
     ([], Inr [JObj [(''regex'', JObj [(''query'', JStr ''john''), (''path'', JStr ''name''),
                                       (''options'', JStr ''i'')])]]) \<and>
   convertFieldOperators ''name'' (JObj [(''$regex'', JRegExp ''^john'' ''i''), (''$gt'', JStr ''a'')]) =
     convertFieldOperators ''name'' (JObj [(''$gt'', JStr ''a'')])"
proof
  have "\<not> throwsOnOperators (JObj [(''$regex'', JStr ''john''), (''$options'', JStr ''i'')])"
    by (simp add: throwsOnOperators_JObj)
  with pattern_clause_once [of "[(''$regex'', JStr ''john''), (''$options'', JStr ''i'')]"
      "''john''" "''name''" JNull]
  show "convertFieldOperators ''name'' (JObj [(''$regex'', JStr ''john''), (''$options'', JStr ''i'')]) =
     ([], Inr [JObj [(''regex'', JObj [(''query'', JStr ''john''), (''path'', JStr ''name''),
                                       (''options'', JStr ''i'')])]])"
    by (simp add: regexClause_def)
  from pattern_clause_once [of "[(''$regex'', JRegExp ''^john'' ''i''), (''$gt'', JStr ''a'')]"
      "''john''" "''name''" "JRegExp ''^john'' ''i''"]
  show "convertFieldOperators ''name'' (JObj [(''$regex'', JRegExp ''^john'' ''i''), (''$gt'', JStr ''a'')]) =
     convertFieldOperators ''name'' (JObj [(''$gt'', JStr ''a'')])"
    by simp
qed

text \<open>
  The claim as stated asks for a diagnostic when the pattern is not a string. A regular
  expression object as pattern is dropped without one.
\<close>

theorem pattern_not_string_no_diagnostic:
  "convertFieldOperators ''name'' (JObj [(''$regex'', JRegExp ''^john'' ''i'')]) = ([], Inr [])"
  by simp

subsection \<open>Unrecognised operators\<close>

text \<open>
  Claim C8, as the code has it. Let an operator set have exactly two keys, one of them
  outside the cases of the \<^verbatim>\<open>switch\<close>, in either order. If the other key is one of \<^verbatim>\<open>$eq\<close>,
  \<^verbatim>\<open>$ne\<close>, \<^verbatim>\<open>$gt\<close>, \<^verbatim>\<open>$gte\<close>, \<^verbatim>\<open>$lt\<close>, \<^verbatim>\<open>$lte\<close>, \<^verbatim>\<open>$in\<close>, \<^verbatim>\<open>$nin\<close>, \<^verbatim>\<open>$exists\<close>, or \<^verbatim>\<open>$regex\<close> with a
  string, the conversion returns exactly one clause and exactly one diagnostic. If it is
  \<^verbatim>\<open>$regex\<close> with another value, or \<^verbatim>\<open>$options\<close>, it returns no clause and one diagnostic.
  If it is \<^verbatim>\<open>$not\<close> and its operand converts, it returns exactly one clause and one
  diagnostic more than the operand emits. And in every operator set, dropping the
  unrecognised keys leaves the outcome (the clauses, or the exception) as it is: an
  unrecognised key never makes the conversion fail.
\<close>

theorem unrecognized_operator_skipped:
  "(u \<notin> set recognizedOperators \<and> (ops = [(k, v), (u, x)] \<or> ops = [(u, x), (k, v)]) \<longrightarrow>
      (k \<in> set clauseOperators \<or> (k = ''$regex'' \<and> typeof v = ''string'') \<longrightarrow>
         (\<exists>c. convertFieldOperators f (JObj ops) = ([UnsupportedOperatorWarning u], Inr [c]))) \<and>
      ((k = ''$regex'' \<and> typeof v \<noteq> ''string'') \<or> k = ''$options'' \<longrightarrow>
         convertFieldOperators f (JObj ops) = ([UnsupportedOperatorWarning u], Inr [])) \<and>
      (k = ''$not'' \<longrightarrow>
         (\<forall>w ncs. convertFieldOperators f v = (w, Inr ncs) \<longrightarrow>
            (\<exists>w'. convertFieldOperators f (JObj ops) =
                    (w', Inr [JObj [(''compound'', JObj [(''mustNot'', JArr ncs)])]]) \<and>
                  length w' = Suc (length w))))) \<and>
   snd (convertFieldOperators f (JObj kvs)) =
     snd (convertFieldOperators f (JObj (filter (\<lambda>(k, v). k \<in> set recognizedOperators) kvs)))"
proof (intro conjI impI allI)
  assume a: "u \<notin> set recognizedOperators \<and> (ops = [(k, v), (u, x)] \<or> ops = [(u, x), (k, v)])"
  assume b: "k \<in> set clauseOperators \<or> (k = ''$regex'' \<and> typeof v = ''string'')"
  then have "k \<in> set recognizedOperators \<and> k \<noteq> ''$not''"
    by (intro clauseOperators_recognized) blast
  with a have r: "convertFieldOperators f (JObj ops) =
      ([UnsupportedOperatorWarning u], Inr (stepClauses f (JObj ops) k v False))"
    using two_keys_recognized [of u k ops v x f] by blast
  from b obtain c where "stepClauses f (JObj ops) k v False = [c]"
    using stepClauses_single [of k False v f "JObj ops"] by blast
  with r show "\<exists>c. convertFieldOperators f (JObj ops) = ([UnsupportedOperatorWarning u], Inr [c])"
    by (simp only:) blast
next
  assume a: "u \<notin> set recognizedOperators \<and> (ops = [(k, v), (u, x)] \<or> ops = [(u, x), (k, v)])"
  assume b: "(k = ''$regex'' \<and> typeof v \<noteq> ''string'') \<or> k = ''$options''"
  then have "k \<in> set recognizedOperators \<and> k \<noteq> ''$not''"
    by (intro clauseOperators_recognized) blast
  with a have r: "convertFieldOperators f (JObj ops) =
      ([UnsupportedOperatorWarning u], Inr (stepClauses f (JObj ops) k v False))"
    using two_keys_recognized [of u k ops v x f] by blast
  from b have "stepClauses f (JObj ops) k v False = []"
    by (rule stepClauses_none)
  with r show "convertFieldOperators f (JObj ops) = ([UnsupportedOperatorWarning u], Inr [])"
    by (simp only:)
next
  fix w ncs
  assume a: "u \<notin> set recognizedOperators \<and> (ops = [(k, v), (u, x)] \<or> ops = [(u, x), (k, v)])"
  assume k: "k = ''$not''" and n: "convertFieldOperators f v = (w, Inr ncs)"
  from a k have "u \<notin> set recognizedOperators"
    and "ops = [(''$not'', v), (u, x)] \<or> ops = [(u, x), (''$not'', v)]"
    by simp_all
  from two_keys_not [OF this n]
  show "\<exists>w'. convertFieldOperators f (JObj ops) =
      (w', Inr [JObj [(''compound'', JObj [(''mustNot'', JArr ncs)])]]) \<and> length w' = Suc (length w)"
    by (simp only: mustNotClause_def)
next
  have "snd (convertFieldOperatorsLoop f (JObj kvs) kvs [] False) =
      snd (convertFieldOperatorsLoop f
        (JObj (filter (\<lambda>(k, v). k \<in> set recognizedOperators) kvs))
        (filter (\<lambda>(k, v). k \<in> set recognizedOperators) kvs) [] False)"
    by (rule loop_drop_unrecognized [OF lookup_options_filter])
  then show "snd (convertFieldOperators f (JObj kvs)) =
      snd (convertFieldOperators f (JObj (filter (\<lambda>(k, v). k \<in> set recognizedOperators) kvs)))"
    by (simp only: convertFieldOperators.simps entries.simps sum.case)
qed



theorem unrecognized_operator_skipped_witness:
  "convertFieldOperators ''age'' (JObj [(''$gte'', JNum 18), (''$near'', JNum 1)]) =
     ([UnsupportedOperatorWarning ''$near''],
      Inr [JObj [(''range'', JObj [(''path'', JStr ''age''), (''gte'', JNum 18)])]])"
proof -
  have "''$near'' \<notin> set recognizedOperators" "''$gte'' \<in> set clauseOperators"
    by (simp_all add: recognizedOperators_def clauseOperators_def)
  with unrecognized_operator_skipped [of "''$near''" "[(''$gte'', JNum 18), (''$near'', JNum 1)]"
      "''$gte''" "JNum 18" "JNum 1" "''age''" "[]"]
  obtain c where "convertFieldOperators ''age'' (JObj [(''$gte'', JNum 18), (''$near'', JNum 1)]) =
      ([UnsupportedOperatorWarning ''$near''], Inr [c])"
    by auto
  then show ?thesis
    by (simp add: rangeClause_def)
qed

text \<open>
  The claim as stated fails on a regular expression object as pattern (no clause at all)
  and on a \<^verbatim>\<open>$not\<close> whose operand has an unrecognised key of its own (two diagnostics).
\<close>

theorem unrecognized_operator_counterexample:
  "convertFieldOperators ''name'' (JObj [(''$regex'', JRegExp ''^jo'' ''i''), (''$near'', JNum 1)]) =
     ([UnsupportedOperatorWarning ''$near''], Inr []) \<and>
   convertFieldOperators ''age'' (JObj [(''$not'', JObj [(''$near'', JNum 1)]), (''$within'', JNum 2)]) =
     ([UnsupportedOperatorWarning ''$near'', UnsupportedOperatorWarning ''$within''],
      Inr [JObj [(''compound'', JObj [(''mustNot'', JArr [])])]])"
  by (simp add: mustNotClause_def)

subsection \<open>Explicit equality with null\<close>

text \<open>
  Claim C10. The two-branch treatment is for a direct \<^verbatim>\<open>null\<close> only: \<^verbatim>\<open>{f: {$eq: null}}\<close>
  yields the single plain equality clause with value \<^verbatim>\<open>null\<close>, which differs from what
  \<^verbatim>\<open>{f: null}\<close> yields; for a field name the whole filter becomes one \<^verbatim>\<open>$search\<close> stage with
  that equality clause inlined.
\<close>

theorem eq_null_single_clause:
  "convertFieldQuery f (JObj [(''$eq'', JNull)]) =
     ([], Inr [JObj [(''equals'', JObj [(''path'', JStr f), (''value'', JNull)])]]) \<and>
   convertFieldQuery f (JObj [(''$eq'', JNull)]) \<noteq> convertFieldQuery f JNull \<and>
   (\<not> startsWith f (CHR ''$'') \<longrightarrow>
      convertFindQuery this (JObj [(f, JObj [(''$eq'', JNull)])]) JUndefined =
        ([], Inr [JObj [(''$search'', JObj
           [(''index'', indexName this),
            (''equals'', JObj [(''path'', JStr f), (''value'', JNull)])])]]))"
proof -
  have field: "convertFieldQuery f (JObj [(''$eq'', JNull)]) = ([], Inr [equalsClause f JNull])"
    by simp
  have "convertQueryToSearch this (JObj [(f, JObj [(''$eq'', JNull)])]) =
      ([], Inr (JObj [(''$search'', JObj (spread [(''index'', indexName this)]
         (equalsClause f JNull)))]))"
    if "\<not> startsWith f (CHR ''$'')"
    using that field
    by (simp add: convertQueryToSearch_def convertQuery_field
        del: convertQuery.simps convertFieldQuery_operators)
  moreover have "convertFieldQuery f JNull \<noteq> ([], Inr [equalsClause f JNull])"
    by (simp add: convertFieldQuery_def shouldClause_def equalsClause_def)
  ultimately show ?thesis
    using field
    by (simp add: convertFindQuery_plain equalsClause_def spread_clause
        del: convertFieldQuery_operators)
qed

theorem eq_null_single_clause_witness:
  "convertFindQuery (newConverter (JStr ''default''))
     (JObj [(''deletedAt'', JObj [(''$eq'', JNull)])]) JUndefined =
   ([], Inr [JObj [(''$search'', JObj
      [(''index'', JStr ''default''),
       (''equals'', JObj [(''path'', JStr ''deletedAt''), (''value'', JNull)])])]])"
  using eq_null_single_clause [of "''deletedAt''" "newConverter (JStr ''default'')"]
  by (simp add: startsWith_def newConverter_def)

subsection \<open>Logical keywords\<close>

text \<open>
  Claim C4. A filter expression that contains \<^verbatim>\<open>$not\<close> as a logical keyword, or any key
  starting with \<^verbatim>\<open>$\<close> other than \<^verbatim>\<open>$and\<close>, \<^verbatim>\<open>$or\<close>, \<^verbatim>\<open>$nor\<close>, at its top level or in a filter
  expression listed under these three, makes the translation throw: \<^verbatim>\<open>convertQuery\<close>,
  \<^verbatim>\<open>convertQueryToSearch\<close> and \<^verbatim>\<open>convertFindQuery\<close> all end in an exception and return no
  result. When the keyword is the only key, the exception is the \<^verbatim>\<open>Error\<close> of
  \<^verbatim>\<open>convertLogicalOperator\<close> with its message.
\<close>

theorem unsupported_keyword_throws:
  "(unsupportedKeyword q \<longrightarrow>
      (\<exists>w e. convertQuery q = (w, Inl e)) \<and>
      (\<exists>w e. convertQueryToSearch this q = (w, Inl e)) \<and>
      (\<exists>w e. convertFindQuery this q options = (w, Inl e))) \<and>
   convertQuery (JObj [(''$not'', v)]) =
     ([], Inl (Error ''$not operator should be handled at field level'')) \<and>
   (startsWith k (CHR ''$'') \<and> k \<notin> set junctions \<and> k \<noteq> ''$not'' \<longrightarrow>
      convertQuery (JObj [(k, v)]) = ([], Inl (Error (''Unsupported logical operator: '' @ k))))"
proof (intro conjI impI)
  assume u: "unsupportedKeyword q"
  then have q: "fails (convertQuery q)"
    by (rule unsupportedKeyword_fails)
  then show "\<exists>w e. convertQuery q = (w, Inl e)"
    by (simp only: fails_iff)
  from u obtain kv kvs where "q = JObj (kv # kvs)"
    using unsupportedKeyword_nonempty by blast
  with q have s: "fails (convertQueryToSearch this q)"
    using convertQueryToSearch_fails by blast
  then show "\<exists>w e. convertQueryToSearch this q = (w, Inl e)"
    by (simp only: fails_iff)
  from s have "fails (convertFindQuery this q options)"
    by (rule convertFindQuery_fails)
  then show "\<exists>w e. convertFindQuery this q options = (w, Inl e)"
    by (simp only: fails_iff)
next
  show "convertQuery (JObj [(''$not'', v)]) =
      ([], Inl (Error ''$not operator should be handled at field level''))"
    by (simp add: startsWith_def)
next
  assume "startsWith k (CHR ''$'') \<and> k \<notin> set junctions \<and> k \<noteq> ''$not''"
  then show "convertQuery (JObj [(k, v)]) =
      ([], Inl (Error (''Unsupported logical operator: '' @ k)))"
    by (simp add: junctions_def)
qed

theorem unsupported_keyword_throws_witness:
  "unsupportedKeyword (JObj [(''$or'', JArr [JObj [(''a'', JNum 1)],
      JObj [(''$not'', JObj [(''b'', JNum 2)])]])]) \<and>
   (\<exists>w e. convertFindQuery (newConverter (JStr ''default''))
      (JObj [(''$or'', JArr [JObj [(''a'', JNum 1)],
                             JObj [(''$not'', JObj [(''b'', JNum 2)])]])]) JUndefined = (w, Inl e))"
proof -
  have "unsupportedKeyword (JObj [(''$not'', JObj [(''b'', JNum 2)])])"
    by (rule unsupportedKeyword.top [of "''$not''" "JObj [(''b'', JNum 2)]"])
      (simp_all add: startsWith_def junctions_def)
  then have h: "unsupportedKeyword (JObj [(''$or'', JArr [JObj [(''a'', JNum 1)],
      JObj [(''$not'', JObj [(''b'', JNum 2)])]])])"
    by (rule unsupportedKeyword.nested [of "''$or''" "[JObj [(''a'', JNum 1)],
      JObj [(''$not'', JObj [(''b'', JNum 2)])]]" _ "JObj [(''$not'', JObj [(''b'', JNum 2)])]",
      rotated 3]) (simp_all add: junctions_def)
  from unsupported_keyword_throws [of "JObj [(''$or'', JArr [JObj [(''a'', JNum 1)],
      JObj [(''$not'', JObj [(''b'', JNum 2)])]])]" "newConverter (JStr ''default'')" JUndefined
      JNull "[]"] h
  show ?thesis
    by blast
qed

subsection \<open>The index identifier\<close>

text \<open>
  Claim C9. Every \<^verbatim>\<open>$search\<close> stage that an operation of a converter produces carries the
  converter's \<^verbatim>\<open>indexName\<close> as its \<^verbatim>\<open>index\<close>: the stage of \<^verbatim>\<open>convertQueryToSearch\<close> and of
  \<^verbatim>\<open>convertQueryToSearchWithOptions\<close>, the stages of \<^verbatim>\<open>createTextSearch\<close> and
  \<^verbatim>\<open>createAutocomplete\<close> whatever their options, the first stage of \<^verbatim>\<open>convertFindQuery\<close>
  (its other stages have no \<^verbatim>\<open>$search\<close>), and every stage with a \<^verbatim>\<open>$search\<close> in the output
  of \<^verbatim>\<open>convertAggregationPipeline\<close> that is not a stage of the input. The \<^verbatim>\<open>indexName\<close> is
  the constructor's argument, or \<^verbatim>\<open>'default'\<close> when that is \<^verbatim>\<open>undefined\<close>. No method assigns
  to \<^verbatim>\<open>this.indexName\<close>: the operations are functions of the converter and return no
  converter.
\<close>

theorem search_stage_index:
  "(convertQueryToSearch this q = (w, Inr s) \<longrightarrow> searchIndex s = indexName this) \<and>
   (convertQueryToSearchWithOptions this q options = (w, Inr s) \<longrightarrow>
      searchIndex s = indexName this) \<and>
   searchIndex (createTextSearch this text path options) = indexName this \<and>
   searchIndex (createAutocomplete this text path options) = indexName this \<and>
   (convertFindQuery this q options = (w, Inr stages) \<longrightarrow>
      stages \<noteq> [] \<and> searchIndex (hd stages) = indexName this \<and>
      (\<forall>x \<in> set (tl stages). lookupProp x ''$search'' = JUndefined)) \<and>
   (convertAggregationPipeline this (JArr input) options = (w, Inr out) \<longrightarrow>
      (\<forall>x \<in> set out. x \<in> set input \<or> lookupProp x ''$search'' = JUndefined \<or>
         searchIndex x = indexName this)) \<and>
   indexName (newConverter name) = (if name = JUndefined then JStr ''default'' else name)"
proof (intro conjI impI)
  assume "convertQueryToSearch this q = (w, Inr s)"
  then show "searchIndex s = indexName this"
    by (intro searchStageOf_index convertQueryToSearch_shape)
next
  assume "convertQueryToSearchWithOptions this q options = (w, Inr s)"
  then show "searchIndex s = indexName this"
    by (intro searchStageOf_index convertQueryToSearchWithOptions_shape)
next
  show "searchIndex (createTextSearch this text path options) = indexName this"
    by (simp add: createTextSearch_def searchIndex_def Let_def)
next
  show "searchIndex (createAutocomplete this text path options) = indexName this"
    by (simp add: createAutocomplete_def searchIndex_def Let_def)
next
  assume a: "convertFindQuery this q options = (w, Inr stages)"
  then obtain search later where st: "stages = search # later"
    and later: "\<forall>x \<in> set later. lookupProp x ''$search'' = JUndefined"
    and search: "convertQueryToSearchWithOptions this q
        (JObj [(''sort'', lookupProp (defaultTo options (JObj [])) ''sort'')]) = (w, Inr search) \<or>
      convertQueryToSearch this q = (w, Inr search)"
    by (auto simp: convertFindQuery_def Let_def getProp_def split: sum.splits if_splits prod.splits)
  from search have "searchIndex search = indexName this"
    using convertQueryToSearch_shape convertQueryToSearchWithOptions_shape searchStageOf_index
    by blast
  with st later show "stages \<noteq> []" "searchIndex (hd stages) = indexName this"
    "\<forall>x \<in> set (tl stages). lookupProp x ''$search'' = JUndefined"
    by simp_all
next
  assume "convertAggregationPipeline this (JArr input) options = (w, Inr out)"
  then have "convertPipelineLoop this input (defaultTo options (JObj [])) 0 [] = (w, Inr out)"
    by (simp add: convertAggregationPipeline_def)
  from convertPipelineLoop_accounted [OF this]
  show "\<forall>x \<in> set out. x \<in> set input \<or> lookupProp x ''$search'' = JUndefined \<or>
      searchIndex x = indexName this"
    by (simp add: accountedFor_def)
next
  show "indexName (newConverter name) = (if name = JUndefined then JStr ''default'' else name)"
    by (simp add: newConverter_def)
qed

theorem search_stage_index_witness:
  "convertAggregationPipeline (newConverter (JStr ''products''))
     (JArr [JObj [(''$match'', JObj [(''status'', JStr ''active'')])],
            JObj [(''$sort'', JObj [(''createdAt'', JNum (- 1))])],
            JObj [(''$limit'', JNum 10)]]) JUndefined =
   ([], Inr [JObj [(''$search'', JObj
               [(''index'', JStr ''products''),
                (''equals'', JObj [(''path'', JStr ''status''), (''value'', JStr ''active'')]),
                (''sort'', JObj [(''createdAt'', JObj [(''order'', JNum (- 1))])])])],
             JObj [(''$limit'', JNum 10)]]) \<and>
   searchIndex (JObj [(''$search'', JObj
               [(''index'', JStr ''products''),
                (''equals'', JObj [(''path'', JStr ''status''), (''value'', JStr ''active'')]),
                (''sort'', JObj [(''createdAt'', JObj [(''order'', JNum (- 1))])])])]) =
     JStr ''products''"
proof -
  let ?conv = "newConverter (JStr ''products'')"
  let ?match = "JObj [(''$match'', JObj [(''status'', JStr ''active'')])]"
  let ?sort = "JObj [(''$sort'', JObj [(''createdAt'', JNum (- 1))])]"
  let ?limit = "JObj [(''$limit'', JNum 10)]"
  let ?search = "JObj [(''$search'', JObj
               [(''index'', JStr ''products''),
                (''equals'', JObj [(''path'', JStr ''status''), (''value'', JStr ''active'')]),
                (''sort'', JObj [(''createdAt'', JObj [(''order'', JNum (- 1))])])])]"
  have run: "convertAggregationPipeline ?conv (JArr [?match, ?sort, ?limit]) JUndefined =
      ([], Inr [?search, ?limit])"
    by code_simp
  have "\<forall>x \<in> set [?search, ?limit]. x \<in> set [?match, ?sort, ?limit] \<or>
      lookupProp x ''$search'' = JUndefined \<or> searchIndex x = indexName ?conv"
    using search_stage_index [of ?conv JNull "[]" JNull JUndefined JNull JNull "[]"
        "[?match, ?sort, ?limit]" "[?search, ?limit]" "JStr ''products''"] run
    by blast
  then have "searchIndex ?search = indexName ?conv"
    by simp
  with run show ?thesis
    by (simp add: newConverter_def)
qed

subsection \<open>Pipeline folding at concrete inputs\<close>

text \<open>
  Claim C7. The pipeline \<^verbatim>\<open>[{$match: {a: 1}}, {$unwind: '$tags'}, {$sort: {p: 1}}]\<close>. The scan
  stops at \<^verbatim>\<open>$unwind\<close>; \<^verbatim>\<open>remainingStages\<close> holds the two stages from there on and
  \<^verbatim>\<open>nextIndex\<close> is the index of \<^verbatim>\<open>$unwind\<close>. The caller pushes \<^verbatim>\<open>remainingStages\<close> and then
  goes on from \<^verbatim>\<open>nextIndex\<close>, so both stages are emitted twice.
\<close>

theorem remainder_emitted_twice:
  "convertAggregationPipeline (newConverter (JStr ''default''))
     (JArr [JObj [(''$match'', JObj [(''a'', JNum 1)])],
            JObj [(''$unwind'', JStr ''$tags'')],
            JObj [(''$sort'', JObj [(''p'', JNum 1)])]]) JUndefined =
   ([], Inr [JObj [(''$search'', JObj [(''index'', JStr ''default''),
                    (''equals'', JObj [(''path'', JStr ''a''), (''value'', JNum 1)])])],
             JObj [(''$unwind'', JStr ''$tags'')],
             JObj [(''$sort'', JObj [(''p'', JNum 1)])],
             JObj [(''$unwind'', JStr ''$tags'')],
             JObj [(''$sort'', JObj [(''p'', JNum 1)])]])"
  by code_simp

theorem remainder_emitted_twice_witness:
  "convertAggregationPipeline (newConverter (JStr ''default''))
     (JArr [JObj [(''$match'', JObj [(''a'', JNum 1)])],
            JObj [(''$unwind'', JStr ''$tags'')],
            JObj [(''$sort'', JObj [(''p'', JNum 1)])]]) JUndefined \<noteq>
   ([], Inr [JObj [(''$search'', JObj [(''index'', JStr ''default''),
                    (''equals'', JObj [(''path'', JStr ''a''), (''value'', JNum 1)])])],
             JObj [(''$unwind'', JStr ''$tags'')],
             JObj [(''$sort'', JObj [(''p'', JNum 1)])]])"
  unfolding remainder_emitted_twice by simp

text \<open>
  Claim C2. The pipeline \<^verbatim>\<open>[{$match: {a: 1}}, {$sort: {score: {$meta: 'textScore'}}}]\<close>. The
  sort stage is captured by the scan; its direction is not a number, so the converter
  warns and embeds no sort; and the captured stage is not emitted again: the output is
  the search stage alone.
\<close>

theorem unconvertible_sort_lost:
  "convertAggregationPipeline (newConverter (JStr ''default''))
     (JArr [JObj [(''$match'', JObj [(''a'', JNum 1)])],
            JObj [(''$sort'', JObj [(''score'', JObj [(''$meta'', JStr ''textScore'')])])]])
     JUndefined =
   ([ComplexSortWarning ''score'' (JObj [(''$meta'', JStr ''textScore'')])],
    Inr [JObj [(''$search'', JObj [(''index'', JStr ''default''),
                 (''equals'', JObj [(''path'', JStr ''a''), (''value'', JNum 1)])])]])"
  by code_simp

theorem unconvertible_sort_lost_witness:
  "JObj [(''$sort'', JObj [(''score'', JObj [(''$meta'', JStr ''textScore'')])])] \<notin>
   set (case snd (convertAggregationPipeline (newConverter (JStr ''default''))
     (JArr [JObj [(''$match'', JObj [(''a'', JNum 1)])],
            JObj [(''$sort'', JObj [(''score'', JObj [(''$meta'', JStr ''textScore'')])])]])
     JUndefined) of Inl e \<Rightarrow> [] | Inr out \<Rightarrow> out)"
  unfolding unconvertible_sort_lost by simp

text \<open>
  Claim C3. The pipeline of the repository's test of \<^verbatim>\<open>includeProjection\<close>:
  \<^verbatim>\<open>[{$match: {status: 'active'}}, {$project: {name: 1, email: 1}}, {$sort: {name: 1}}]\<close>
  with the option \<^verbatim>\<open>{includeProjection: true}\<close>. The projection stage is captured, and the
  output is the search stage alone: the projection is lost.
\<close>

theorem captured_projection_lost:
  "convertAggregationPipeline (newConverter (JStr ''default''))
     (JArr [JObj [(''$match'', JObj [(''status'', JStr ''active'')])],
            JObj [(''$project'', JObj [(''name'', JNum 1), (''email'', JNum 1)])],
            JObj [(''$sort'', JObj [(''name'', JNum 1)])]])
     (JObj [(''includeProjection'', JBool True)]) =
   ([], Inr [JObj [(''$search'', JObj [(''index'', JStr ''default''),
                 (''equals'', JObj [(''path'', JStr ''status''), (''value'', JStr ''active'')]),
                 (''sort'', JObj [(''name'', JObj [(''order'', JNum 1)])])])]])"
  by code_simp

theorem captured_projection_lost_witness:
  "JObj [(''$project'', JObj [(''name'', JNum 1), (''email'', JNum 1)])] \<notin>
   set (case snd (convertAggregationPipeline (newConverter (JStr ''default''))
     (JArr [JObj [(''$match'', JObj [(''status'', JStr ''active'')])],
            JObj [(''$project'', JObj [(''name'', JNum 1), (''email'', JNum 1)])],
            JObj [(''$sort'', JObj [(''name'', JNum 1)])]])
     (JObj [(''includeProjection'', JBool True)])) of Inl e \<Rightarrow> [] | Inr out \<Rightarrow> out)"
  unfolding captured_projection_lost by simp

end
